theory Spec2Isabelle
  imports Main
begin

section \<open>The host document\<close>

text \<open>
  \<^verbatim>\<open>static/js/main.js\<close> runs against the browser's document. The script only
  reads the element tree (through \<^verbatim>\<open>querySelectorAll\<close>) and only writes event
  listener lists and the console, so the tree is an immutable value and the rest is an
  explicit state.

  An element is named by its handle: its position in tree order (the order in which
  \<^verbatim>\<open>querySelectorAll\<close> returns elements). Two handles are the same node exactly when
  they are equal. Every element knows its parent; in tree order a parent comes before
  its children.

  An element also has its activation behaviour: what the host does at the end of a click
  when this element is the nearest one on the click's path that has such a behaviour.
  The host derives it from the markup; the model takes the result.
  \<^item> \<open>Submits f\<close>: a submit button whose form owner (\<^verbatim>\<open>button.form\<close>) is \<open>f\<close> and
    whose form passes validation: the host submits the form, which fires a submit event
    at \<open>f\<close>.
  \<^item> \<open>Forwards c\<close>: a label whose labeled control (\<^verbatim>\<open>label.control\<close>) is \<open>c\<close>: the
    host fires a click at \<open>c\<close>.
  \<^item> \<open>OtherDefault\<close>: any other element with an activation behaviour (a link, a
    checkbox, a button without a form, a submit button of a form that fails
    validation): the behaviour fires neither a submit nor a click event.
  \<^item> \<open>Inert\<close>: an element without activation behaviour.
\<close>

type_synonym handle = nat

datatype activation = Inert | Submits handle | Forwards handle | OtherDefault

record element =
  localName :: string
  classList :: "string list"
  parentNode :: "handle option"
  activation :: activation

type_synonym document = "element list"

text \<open>The two selectors of the script: the type selector \<^verbatim>\<open>'form'\<close> and the class
  selector \<^verbatim>\<open>'.btn'\<close>.\<close>

datatype selector = Tag string | Class string

fun matches :: "selector \<Rightarrow> element \<Rightarrow> bool" where
  "matches (Tag t) e = (localName e = t)"
| "matches (Class c) e = (c \<in> set (classList e))"

text \<open>\<^verbatim>\<open>document.querySelectorAll(sel)\<close>: the static list of the matching elements, in
  tree order, each element once.\<close>

definition querySelectorAll :: "document \<Rightarrow> selector \<Rightarrow> handle list" where
  "querySelectorAll doc sel = filter (\<lambda>h. matches sel (doc ! h)) [0..<length doc]"

section \<open>Function objects, listeners, events\<close>

text \<open>
  The script has two function expressions that become event listeners: the submit
  handler (lines 7 to 12) and the click handler (lines 18 to 20). Every evaluation of a
  function expression makes a new function object; \<open>fn_id\<close> is its identity. The only
  variable a handler closes over is the loop variable (\<^verbatim>\<open>form\<close> or \<^verbatim>\<open>button\<close>).
\<close>

datatype code = SubmitBody | ClickBody

record closure =
  fn_id :: nat
  body :: code
  captured :: handle

text \<open>The script passes no options to \<^verbatim>\<open>addEventListener\<close>: every listener is a
  bubbling, non-passive, non-once listener, so a listener is its event type and its
  callback.\<close>

record listener =
  ltype :: string
  callback :: closure

text \<open>One line of the console: the label and the element \<^verbatim>\<open>console.log\<close> was given.\<close>

type_synonym trace = "string \<times> handle"

datatype error = LogFailure trace

record page =
  listeners :: "handle \<Rightarrow> listener list"
  console :: "trace list"
  reported :: "error list"
  next_fn :: nat

text \<open>The page as loaded: no listener bound, nothing logged.\<close>

definition fresh_page :: page where
  "fresh_page = \<lparr>listeners = (\<lambda>_. []), console = [], reported = [], next_fn = 0\<rparr>"

record event =
  etype :: string
  target :: handle
  bubbles :: bool
  cancelable :: bool
  canceled :: bool

text \<open>The two interactions as the browser fires them: both events bubble and both are
  cancelable. The default effect of a submit event (navigation) takes place exactly when
  the event comes back from dispatch with \<open>canceled\<close> unset.\<close>

definition submit_event :: "handle \<Rightarrow> event" where
  "submit_event f =
     \<lparr>etype = ''submit'', target = f, bubbles = True, cancelable = True, canceled = False\<rparr>"

definition click_event :: "handle \<Rightarrow> event" where
  "click_event b =
     \<lparr>etype = ''click'', target = b, bubbles = True, cancelable = True, canceled = False\<rparr>"

section \<open>The host operations the script calls\<close>

text \<open>\<^verbatim>\<open>target.addEventListener(type, callback)\<close>: append the listener to the target's
  list unless the list already has one with the same type and the same callback
  object.\<close>

definition addEventListener :: "handle \<Rightarrow> string \<Rightarrow> closure \<Rightarrow> page \<Rightarrow> page" where
  "addEventListener h ty cb st =
     (if \<lparr>ltype = ty, callback = cb\<rparr> \<in> set (listeners st h) then st
      else st\<lparr>listeners := (listeners st)(h := listeners st h @ [\<lparr>ltype = ty, callback = cb\<rparr>])\<rparr>)"

text \<open>\<^verbatim>\<open>event.preventDefault()\<close> sets the canceled flag of a cancelable event.\<close>

definition preventDefault :: "event \<Rightarrow> event" where
  "preventDefault ev = (if cancelable ev then ev\<lparr>canceled := True\<rparr> else ev)"

text \<open>\<^verbatim>\<open>console.log(label, element)\<close>. The console is the host's; \<open>throws\<close> says for
  which lines its \<^verbatim>\<open>log\<close> raises instead of printing. The browser's own console never
  raises.\<close>

type_synonym console_impl = "trace \<Rightarrow> bool"

definition std_console :: console_impl where
  "std_console = (\<lambda>_. False)"

definition console_log :: "console_impl \<Rightarrow> trace \<Rightarrow> trace list \<Rightarrow> error + trace list" where
  "console_log throws t out = (if throws t then Inl (LogFailure t) else Inr (out @ [t]))"

section \<open>The script\<close>

text \<open>
  The bodies of the two handlers.
  \<^verbatim>\<open>
  function(event) { event.preventDefault(); console.log('Form submitted:', form); }
  function() { console.log('Button clicked:', button); }
  \<close>
  A call returns the exception it raised, if any, with the event and the page as the
  statements before the raise left them.
\<close>

definition call :: "console_impl \<Rightarrow> closure \<Rightarrow> event \<times> page \<Rightarrow> error option \<times> event \<times> page" where
  "call throws f s =
     (case s of (ev, st) \<Rightarrow>
        (case body f of
           SubmitBody \<Rightarrow>
             (let ev1 = preventDefault ev in
              case console_log throws (''Form submitted:'', captured f) (console st) of
                Inl e \<Rightarrow> (Some e, ev1, st)
              | Inr out \<Rightarrow> (None, ev1, st\<lparr>console := out\<rparr>))
         | ClickBody \<Rightarrow>
             (case console_log throws (''Button clicked:'', captured f) (console st) of
                Inl e \<Rightarrow> (Some e, ev, st)
              | Inr out \<Rightarrow> (None, ev, st\<lparr>console := out\<rparr>))))"

text \<open>
  \<^verbatim>\<open>forms.forEach(form => { form.addEventListener('submit', function(event) {...}); })\<close>
  and the same loop over the buttons. Each iteration evaluates the function expression
  anew.
\<close>

fun forEach_form :: "handle list \<Rightarrow> page \<Rightarrow> page" where
  "forEach_form [] st = st"
| "forEach_form (form # rest) st =
     forEach_form rest
       (addEventListener form ''submit''
          \<lparr>fn_id = next_fn st, body = SubmitBody, captured = form\<rparr>
          (st\<lparr>next_fn := Suc (next_fn st)\<rparr>))"

fun forEach_button :: "handle list \<Rightarrow> page \<Rightarrow> page" where
  "forEach_button [] st = st"
| "forEach_button (button # rest) st =
     forEach_button rest
       (addEventListener button ''click''
          \<lparr>fn_id = next_fn st, body = ClickBody, captured = button\<rparr>
          (st\<lparr>next_fn := Suc (next_fn st)\<rparr>))"

definition bind_forms :: "document \<Rightarrow> page \<Rightarrow> page" where
  "bind_forms doc st = (let forms = querySelectorAll doc (Tag ''form'') in forEach_form forms st)"

definition bind_buttons :: "document \<Rightarrow> page \<Rightarrow> page" where
  "bind_buttons doc st =
     (let buttons = querySelectorAll doc (Class ''btn'') in forEach_button buttons st)"

text \<open>The body of the \<^verbatim>\<open>DOMContentLoaded\<close> listener (lines 3 to 22): the registration
  pass.\<close>

definition registration_pass :: "document \<Rightarrow> page \<Rightarrow> page" where
  "registration_pass doc st = bind_buttons doc (bind_forms doc st)"

section \<open>Event dispatch\<close>

text \<open>
  The path of an event: its target, then the target's ancestors up to the root. (The
  document node and the window end the path in the browser; this script binds no submit
  or click listener there.) A parent that does not come before its child cannot occur in
  a tree; the walk stops there.
\<close>

function path_from :: "document \<Rightarrow> handle \<Rightarrow> handle list" where
  "path_from doc h =
     (if h < length doc then
        (case parentNode (doc ! h) of
           None \<Rightarrow> [h]
         | Some p \<Rightarrow> if p < h then h # path_from doc p else [h])
      else [])"
  by pat_completeness auto
termination
  by (relation "measure snd") auto

definition event_path :: "document \<Rightarrow> event \<Rightarrow> handle list" where
  "event_path doc ev =
     (if bubbles ev then path_from doc (target ev)
      else if target ev < length doc then [target ev] else [])"

text \<open>Invoking the listeners of one node: those of the event's type, in the order they
  were added. An exception a callback raises is reported and the next listener still
  runs.\<close>

fun inner_invoke :: "console_impl \<Rightarrow> listener list \<Rightarrow> event \<times> page \<Rightarrow> event \<times> page" where
  "inner_invoke throws [] s = s"
| "inner_invoke throws (l # ls) s =
     (if ltype l = etype (fst s) then
        (case call throws (callback l) s of
           (None, ev', st') \<Rightarrow> inner_invoke throws ls (ev', st')
         | (Some e, ev', st') \<Rightarrow>
             inner_invoke throws ls (ev', st'\<lparr>reported := reported st' @ [e]\<rparr>))
      else inner_invoke throws ls s)"

fun invoke_path :: "console_impl \<Rightarrow> handle list \<Rightarrow> event \<times> page \<Rightarrow> event \<times> page" where
  "invoke_path throws [] s = s"
| "invoke_path throws (h # hs) s =
     invoke_path throws hs (inner_invoke throws (listeners (snd s) h) s)"

text \<open>Delivering an event: the listeners along its path run, the target's first.\<close>

definition deliver :: "console_impl \<Rightarrow> document \<Rightarrow> event \<Rightarrow> page \<Rightarrow> event \<times> page" where
  "deliver throws doc ev st = invoke_path throws (event_path doc ev) (ev, st)"

text \<open>
  The activation target of a click: the first element on its path that has an
  activation behaviour. \<open>follow_up\<close> is the behaviour a click at \<open>h\<close> ends with.
\<close>

definition activation_target :: "document \<Rightarrow> handle list \<Rightarrow> handle option" where
  "activation_target doc hs = find (\<lambda>h. activation (doc ! h) \<noteq> Inert) hs"

definition follow_up :: "document \<Rightarrow> handle \<Rightarrow> activation" where
  "follow_up doc h =
     (case activation_target doc (path_from doc h) of
        None \<Rightarrow> Inert
      | Some a \<Rightarrow> activation (doc ! a))"

text \<open>
  Dispatching an event: it is delivered; then, when it is a click that no listener
  canceled, the host runs the activation behaviour of its activation target.
  \<^item> A submit button submits its form: a submit event is fired at the form and
    delivered. (The navigation that follows when that event is not canceled ends the
    page and is not part of the page state.)
  \<^item> A label fires a click at its control, which is dispatched in turn, with its own
    activation behaviour. The label does nothing when the click it received was aimed at
    its control or inside it, and nothing while it is still busy with a click it
    forwarded (\<open>busy\<close>: the labels that are), so a click is forwarded at most once by
    every label.
  The event returned is the dispatched one; the events the host fires in its wake only
  leave their lines on the page. A click is an event of type \<^verbatim>\<open>click\<close>: the clicks the
  host fires are mouse events, the only events with an activation behaviour.
\<close>

function dispatch_from ::
  "console_impl \<Rightarrow> document \<Rightarrow> handle list \<Rightarrow> event \<Rightarrow> page \<Rightarrow> event \<times> page" where
  "dispatch_from throws doc busy ev st =
     (let delivered = deliver throws doc ev st in
      if etype ev = ''click'' \<and> \<not> canceled (fst delivered) then
        (case activation_target doc (event_path doc ev) of
           None \<Rightarrow> delivered
         | Some a \<Rightarrow>
             (case activation (doc ! a) of
                Submits f \<Rightarrow>
                  (fst delivered, snd (deliver throws doc (submit_event f) (snd delivered)))
              | Forwards c \<Rightarrow>
                  if a < length doc \<and> a \<notin> set busy \<and> c \<notin> set (path_from doc (target ev))
                  then (fst delivered,
                        snd (dispatch_from throws doc (a # busy) (click_event c) (snd delivered)))
                  else delivered
              | _ \<Rightarrow> delivered))
      else delivered)"
  by pat_completeness auto
termination
proof (relation "measure (\<lambda>(throws, doc, busy, ev, st).
          length (filter (\<lambda>h. h \<notin> set busy) [0..<length doc]))")
  show "wf (measure (\<lambda>(throws, doc, busy, ev, st).
          length (filter (\<lambda>h. h \<notin> set busy) [0..<length doc])))"
    by simp
next
  fix throws :: console_impl and doc :: document and busy :: "handle list"
    and ev :: event and st :: page and delivered a x c
  assume "a < length doc \<and> a \<notin> set busy \<and> c \<notin> set (path_from doc (target ev))"
  then have a: "a \<in> set (filter (\<lambda>h. h \<notin> set busy) [0..<length doc])" by simp
  have "filter (\<lambda>h. h \<notin> set (a # busy)) [0..<length doc] =
          filter (\<lambda>h. h \<noteq> a) (filter (\<lambda>h. h \<notin> set busy) [0..<length doc])"
    by (simp add: conj_commute)
  then have "length (filter (\<lambda>h. h \<notin> set (a # busy)) [0..<length doc]) <
          length (filter (\<lambda>h. h \<notin> set busy) [0..<length doc])"
    using length_filter_less [OF a, of "\<lambda>h. h \<noteq> a"] by simp
  then show "((throws, doc, a # busy, click_event c, snd delivered), throws, doc, busy, ev, st)
          \<in> measure (\<lambda>(throws, doc, busy, ev, st).
          length (filter (\<lambda>h. h \<notin> set busy) [0..<length doc]))"
    by simp
qed

definition dispatchEvent :: "console_impl \<Rightarrow> document \<Rightarrow> event \<Rightarrow> page \<Rightarrow> event \<times> page" where
  "dispatchEvent throws doc ev st = dispatch_from throws doc [] ev st"

text \<open>A sequence of interactions, one after the other, against the browser's console:
  the page at the end and, for each interaction, whether its default was prevented.\<close>

fun interact :: "document \<Rightarrow> event list \<Rightarrow> page \<Rightarrow> bool list \<times> page" where
  "interact doc [] st = ([], st)"
| "interact doc (ev # evs) st =
     (case dispatchEvent std_console doc ev st of
        (ev', st') \<Rightarrow> (case interact doc evs st' of (cs, st'') \<Rightarrow> (canceled ev' # cs, st'')))"

section \<open>The page's life cycle\<close>

text \<open>
  The top level of the script is one statement (line 3):
  \<^verbatim>\<open>document.addEventListener('DOMContentLoaded', function() { ... })\<close>.
  It adds the registration pass to the document node's listeners. The document node's
  listener list is kept as the list of event types the pass is bound to. The script is
  taken to run while the page is parsed, as a script element in the markup does.

  The browser then fires the events of the load at the document, in this order:
  \<^verbatim>\<open>readystatechange\<close> (interactive), \<^verbatim>\<open>DOMContentLoaded\<close> when the markup is
  parsed, \<^verbatim>\<open>readystatechange\<close> (complete) and \<^verbatim>\<open>load\<close> when the images and the
  other resources have arrived.
\<close>

record browsing_context =
  document_listeners :: "string list"
  current :: page

definition new_context :: browsing_context where
  "new_context = \<lparr>document_listeners = [], current = fresh_page\<rparr>"

definition main_js :: "browsing_context \<Rightarrow> browsing_context" where
  "main_js w = w\<lparr>document_listeners := document_listeners w @ [''DOMContentLoaded'']\<rparr>"

text \<open>Firing an event at the document calls the listeners bound to its name, in
  order; each call is one run of the registration pass.\<close>

fun invoke_document :: "document \<Rightarrow> string \<Rightarrow> string list \<Rightarrow> page \<Rightarrow> page" where
  "invoke_document doc name [] st = st"
| "invoke_document doc name (ty # tys) st =
     invoke_document doc name tys (if ty = name then registration_pass doc st else st)"

definition fire :: "document \<Rightarrow> string \<Rightarrow> browsing_context \<Rightarrow> browsing_context" where
  "fire doc name w = w\<lparr>current := invoke_document doc name (document_listeners w) (current w)\<rparr>"

fun fire_all :: "document \<Rightarrow> string list \<Rightarrow> browsing_context \<Rightarrow> browsing_context" where
  "fire_all doc [] w = w"
| "fire_all doc (name # names) w = fire_all doc names (fire doc name w)"

definition load_events :: "string list" where
  "load_events = [''readystatechange'', ''DOMContentLoaded'', ''readystatechange'', ''load'']"

section \<open>Notions used in the statements and proofs\<close>

text \<open>The line a callback prints when it is called, the lines the listeners of one node
  print for an event of type \<open>ty\<close>, and whether one of them prevents the default.\<close>

definition trace_of :: "closure \<Rightarrow> trace" where
  "trace_of f = (case body f of SubmitBody \<Rightarrow> (''Form submitted:'', captured f)
                 | ClickBody \<Rightarrow> (''Button clicked:'', captured f))"

definition emitted :: "string \<Rightarrow> listener list \<Rightarrow> trace list" where
  "emitted ty ls = map (\<lambda>l. trace_of (callback l)) (filter (\<lambda>l. ltype l = ty) ls)"

definition prevents :: "string \<Rightarrow> listener list \<Rightarrow> bool" where
  "prevents ty ls = list_ex (\<lambda>l. ltype l = ty \<and> body (callback l) = SubmitBody) ls"

definition ids_below :: "page \<Rightarrow> bool" where
  "ids_below st = (\<forall>h. \<forall>l \<in> set (listeners st h). fn_id (callback l) < next_fn st)"

definition submit_listener :: "nat \<Rightarrow> handle \<Rightarrow> listener" where
  "submit_listener i h = \<lparr>ltype = ''submit'', callback = \<lparr>fn_id = i, body = SubmitBody, captured = h\<rparr>\<rparr>"

definition click_listener :: "nat \<Rightarrow> handle \<Rightarrow> listener" where
  "click_listener i h = \<lparr>ltype = ''click'', callback = \<lparr>fn_id = i, body = ClickBody, captured = h\<rparr>\<rparr>"

definition forms_of :: "document \<Rightarrow> handle list" where
  "forms_of doc = querySelectorAll doc (Tag ''form'')"

definition buttons_of :: "document \<Rightarrow> handle list" where
  "buttons_of doc = querySelectorAll doc (Class ''btn'')"

definition emitted_once :: "document \<Rightarrow> string \<Rightarrow> handle \<Rightarrow> trace list" where
  "emitted_once doc ty h =
     (if ty = ''submit'' \<and> h \<in> set (forms_of doc) then [(''Form submitted:'', h)] else []) @
     (if ty = ''click'' \<and> h \<in> set (buttons_of doc) then [(''Button clicked:'', h)] else [])"

definition outcome :: "document \<Rightarrow> (handle \<Rightarrow> listener list) \<Rightarrow> event \<Rightarrow> bool" where
  "outcome doc ls ev =
     (canceled ev \<or> (cancelable ev \<and> list_ex (\<lambda>h. prevents (etype ev) (ls h)) (event_path doc ev)))"

definition traces_of :: "document \<Rightarrow> (handle \<Rightarrow> listener list) \<Rightarrow> event \<Rightarrow> trace list" where
  "traces_of doc ls ev = concat (map (\<lambda>h. emitted (etype ev) (ls h)) (event_path doc ev))"

text \<open>A page on which nothing is bound yet, with any console history, any reported
  errors and any number of function objects made so far: the ambient state a run of the
  script may start from.\<close>

definition unbound_page :: "trace list \<Rightarrow> error list \<Rightarrow> nat \<Rightarrow> page" where
  "unbound_page c r n = \<lparr>listeners = (\<lambda>_. []), console = c, reported = r, next_fn = n\<rparr>"

text \<open>
  The lines a dispatch leaves, the events fired by the activation behaviour included,
  when delivering an event \<open>e\<close> prints \<open>T e\<close> and cancels it exactly when \<open>C e\<close>.
\<close>

function chain_lines ::
  "document \<Rightarrow> (event \<Rightarrow> trace list) \<Rightarrow> (event \<Rightarrow> bool) \<Rightarrow> handle list \<Rightarrow> event \<Rightarrow> trace list"
  where
  "chain_lines doc T C busy ev =
     T ev @
     (if etype ev = ''click'' \<and> \<not> C ev then
        (case activation_target doc (event_path doc ev) of
           None \<Rightarrow> []
         | Some a \<Rightarrow>
             (case activation (doc ! a) of
                Submits f \<Rightarrow> T (submit_event f)
              | Forwards c \<Rightarrow>
                  if a < length doc \<and> a \<notin> set busy \<and> c \<notin> set (path_from doc (target ev))
                  then chain_lines doc T C (a # busy) (click_event c)
                  else []
              | _ \<Rightarrow> []))
      else [])"
  by pat_completeness auto
termination
proof (relation "measure (\<lambda>(doc, T, C, busy, ev).
          length (filter (\<lambda>h. h \<notin> set busy) [0..<length doc]))")
  show "wf (measure (\<lambda>(doc, T, C, busy, ev).
          length (filter (\<lambda>h. h \<notin> set busy) [0..<length doc])))"
    by simp
next
  fix doc :: document and T :: "event \<Rightarrow> trace list" and C :: "event \<Rightarrow> bool"
    and busy :: "handle list" and ev :: event and a x c
  assume "a < length doc \<and> a \<notin> set busy \<and> c \<notin> set (path_from doc (target ev))"
  then have a: "a \<in> set (filter (\<lambda>h. h \<notin> set busy) [0..<length doc])" by simp
  have "filter (\<lambda>h. h \<notin> set (a # busy)) [0..<length doc] =
          filter (\<lambda>h. h \<noteq> a) (filter (\<lambda>h. h \<notin> set busy) [0..<length doc])"
    by (simp add: conj_commute)
  then have "length (filter (\<lambda>h. h \<notin> set (a # busy)) [0..<length doc]) <
          length (filter (\<lambda>h. h \<notin> set busy) [0..<length doc])"
    using length_filter_less [OF a, of "\<lambda>h. h \<noteq> a"] by simp
  then show "((doc, T, C, a # busy, click_event c), doc, T, C, busy, ev)
          \<in> measure (\<lambda>(doc, T, C, busy, ev).
          length (filter (\<lambda>h. h \<notin> set busy) [0..<length doc]))"
    by simp
qed

text \<open>What delivering an event prints and whether it is canceled, after one pass on a
  page where nothing was bound, as functions of the document and the event alone; and
  the same for a sequence of dispatched events.\<close>

definition doc_traces :: "document \<Rightarrow> event \<Rightarrow> trace list" where
  "doc_traces doc ev = concat (map (emitted_once doc (etype ev)) (event_path doc ev))"

definition doc_outcome :: "document \<Rightarrow> event \<Rightarrow> bool" where
  "doc_outcome doc ev =
     (canceled ev \<or> (cancelable ev \<and> etype ev = ''submit'' \<and>
        list_ex (\<lambda>h. h \<in> set (querySelectorAll doc (Tag ''form''))) (event_path doc ev)))"

definition script_traces :: "document \<Rightarrow> event list \<Rightarrow> trace list" where
  "script_traces doc evs =
     concat (map (chain_lines doc (doc_traces doc) (doc_outcome doc) []) evs)"

definition script_outcomes :: "document \<Rightarrow> event list \<Rightarrow> bool list" where
  "script_outcomes doc evs = map (doc_outcome doc) evs"

section \<open>Example documents\<close>

text \<open>A login page: a form (handle 0) that holds its submit button, a marked control
  (handle 1).\<close>

definition login_page :: document where
  "login_page =
     [\<lparr>localName = ''form'', classList = [], parentNode = None, activation = Inert\<rparr>,
      \<lparr>localName = ''button'', classList = [''btn'', ''btn-primary''], parentNode = Some 0,
         activation = Submits 0\<rparr>]"

text \<open>A page with three marked controls: a card (handle 0) marked as a control, a button
  inside the card (handle 1) and a link beside it (handle 2). No form is on the page.\<close>

definition card_page :: document where
  "card_page =
     [\<lparr>localName = ''div'', classList = [''card'', ''btn''], parentNode = None,
         activation = Inert\<rparr>,
      \<lparr>localName = ''button'', classList = [''btn''], parentNode = Some 0,
         activation = OtherDefault\<rparr>,
      \<lparr>localName = ''a'', classList = [''btn''], parentNode = None,
         activation = OtherDefault\<rparr>]"

text \<open>A toolbar: three marked controls side by side in an unmarked container, outside
  any form.\<close>

definition toolbar_page :: document where
  "toolbar_page =
     [\<lparr>localName = ''div'', classList = [''toolbar''], parentNode = None,
         activation = Inert\<rparr>,
      \<lparr>localName = ''button'', classList = [''btn''], parentNode = Some 0,
         activation = OtherDefault\<rparr>,
      \<lparr>localName = ''button'', classList = [''btn''], parentNode = Some 0,
         activation = OtherDefault\<rparr>,
      \<lparr>localName = ''a'', classList = [''btn'', ''btn-link''], parentNode = Some 0,
         activation = OtherDefault\<rparr>]"

text \<open>A page with neither a form nor a marked control.\<close>

definition plain_page :: document where
  "plain_page =
     [\<lparr>localName = ''div'', classList = [''content''], parentNode = None,
         activation = Inert\<rparr>,
      \<lparr>localName = ''p'', classList = [], parentNode = Some 0, activation = Inert\<rparr>]"


text \<open>A search form (handle 0) with an unmarked submit button (handle 1); no element has
  class \<^verbatim>\<open>btn\<close>.\<close>

definition search_page :: document where
  "search_page =
     [\<lparr>localName = ''form'', classList = [], parentNode = None, activation = Inert\<rparr>,
      \<lparr>localName = ''button'', classList = [], parentNode = Some 0,
         activation = Submits 0\<rparr>]"

section \<open>Element discovery\<close>

lemma qsa_distinct: "distinct (querySelectorAll doc sel)"
  by (simp add: querySelectorAll_def)

lemma qsa_sorted: "sorted (querySelectorAll doc sel)"
  by (simp add: querySelectorAll_def sorted_wrt_filter)

lemma qsa_set: "h \<in> set (querySelectorAll doc sel) \<longleftrightarrow> h < length doc \<and> matches sel (doc ! h)"
  by (auto simp add: querySelectorAll_def)

section \<open>Event paths\<close>

text \<open>The path of an event starts at its target and goes up through strictly smaller
  handles, so no node is on it twice.\<close>

declare path_from.simps [simp del]

text \<open>The path of an event starts at its target and goes up through strictly smaller
  handles, so no node is on it twice.\<close>

lemma path_from_le: "a \<in> set (path_from doc h) \<Longrightarrow> a \<le> h"
proof (induction doc h rule: path_from.induct)
  case (1 doc h)
  show ?case
  proof (cases "h < length doc")
    case False
    with "1.prems" show ?thesis by (simp add: path_from.simps [of doc h])
  next
    case inr: True
    show ?thesis
    proof (cases "parentNode (doc ! h)")
      case None
      with inr "1.prems" show ?thesis by (simp add: path_from.simps [of doc h])
    next
      case (Some p)
      show ?thesis
      proof (cases "p < h")
        case False
        with inr Some "1.prems" show ?thesis by (simp add: path_from.simps [of doc h])
      next
        case True
        with inr Some "1.prems" have "a = h \<or> a \<in> set (path_from doc p)"
          by (simp add: path_from.simps [of doc h])
        then show ?thesis
        proof
          assume "a = h" then show ?thesis by simp
        next
          assume "a \<in> set (path_from doc p)"
          then have "a \<le> p" using "1.IH" [OF inr Some True] by simp
          with True show ?thesis by simp
        qed
      qed
    qed
  qed
qed

lemma path_from_cons:
  assumes "h < length doc"
  shows "\<exists>rest. path_from doc h = h # rest \<and> (\<forall>a \<in> set rest. a < h)"
proof (cases "parentNode (doc ! h)")
  case None
  with assms show ?thesis by (simp add: path_from.simps [of doc h])
next
  case (Some p)
  show ?thesis
  proof (cases "p < h")
    case False
    with assms Some show ?thesis by (simp add: path_from.simps [of doc h])
  next
    case True
    with assms Some have "path_from doc h = h # path_from doc p"
      by (simp add: path_from.simps [of doc h])
    moreover have "\<forall>a \<in> set (path_from doc p). a < h"
      using path_from_le [of _ doc p] True by fastforce
    ultimately show ?thesis by blast
  qed
qed

lemma path_from_root:
  "h < length doc \<Longrightarrow> parentNode (doc ! h) = None \<Longrightarrow> path_from doc h = [h]"
  by (simp add: path_from.simps [of doc h])

lemma path_from_child:
  "h < length doc \<Longrightarrow> parentNode (doc ! h) = Some p \<Longrightarrow> p < h \<Longrightarrow>
     path_from doc h = h # path_from doc p"
  by (simp add: path_from.simps [of doc h])

lemma event_path_cons:
  assumes "target ev < length doc"
  shows "\<exists>rest. event_path doc ev = target ev # rest \<and> (\<forall>a \<in> set rest. a < target ev)"
  using path_from_cons [OF assms] assms by (simp add: event_path_def)

section \<open>The registration pass\<close>

text \<open>Every callback the pass binds is a new function object: its identity is not among
  those bound before (\<open>ids_below\<close>), so \<^verbatim>\<open>addEventListener\<close> never finds it
  in the list and always appends.\<close>

lemma add_fresh:
  assumes "ids_below st" and "fn_id cb = next_fn st"
  shows "addEventListener h ty cb (st\<lparr>next_fn := Suc (next_fn st)\<rparr>) =
           st\<lparr>next_fn := Suc (next_fn st),
              listeners := (listeners st)(h := listeners st h @ [\<lparr>ltype = ty, callback = cb\<rparr>])\<rparr>"
proof -
  have "\<lparr>ltype = ty, callback = cb\<rparr> \<notin> set (listeners st h)"
  proof
    assume "\<lparr>ltype = ty, callback = cb\<rparr> \<in> set (listeners st h)"
    with assms(1) have "fn_id (callback \<lparr>ltype = ty, callback = cb\<rparr>) < next_fn st"
      unfolding ids_below_def by blast
    with assms(2) show False by simp
  qed
  then show ?thesis by (simp add: addEventListener_def)
qed

lemma ids_below_add:
  assumes "ids_below st" and "fn_id cb = next_fn st"
  shows "ids_below (st\<lparr>next_fn := Suc (next_fn st),
              listeners := (listeners st)(h := listeners st h @ [\<lparr>ltype = ty, callback = cb\<rparr>])\<rparr>)"
  using assms unfolding ids_below_def by (auto simp add: less_Suc_eq)

lemma forEach_form_char:
  assumes "ids_below st" and "distinct fs"
  shows "ids_below (forEach_form fs st) \<and>
         next_fn (forEach_form fs st) = next_fn st + length fs \<and>
         console (forEach_form fs st) = console st \<and>
         reported (forEach_form fs st) = reported st \<and>
         (\<forall>h. h \<notin> set fs \<longrightarrow> listeners (forEach_form fs st) h = listeners st h) \<and>
         (\<forall>k < length fs. listeners (forEach_form fs st) (fs ! k) =
             listeners st (fs ! k) @ [submit_listener (next_fn st + k) (fs ! k)])"
  using assms
proof (induction fs arbitrary: st)
  case Nil
  then show ?case by simp
next
  case (Cons f fs)
  let ?cb = "\<lparr>fn_id = next_fn st, body = SubmitBody, captured = f\<rparr>"
  let ?st1 = "st\<lparr>next_fn := Suc (next_fn st),
              listeners := (listeners st)(f := listeners st f @ [\<lparr>ltype = ''submit'', callback = ?cb\<rparr>])\<rparr>"
  have step: "forEach_form (f # fs) st = forEach_form fs ?st1"
    using add_fresh [OF Cons.prems(1), of ?cb f "''submit''"] by simp
  have inv1: "ids_below ?st1"
    using ids_below_add [OF Cons.prems(1), of ?cb f "''submit''"] by simp
  from Cons.prems(2) have d: "distinct fs" and nf: "f \<notin> set fs" by simp_all
  note ih = Cons.IH [OF inv1 d]
  have a: "ids_below (forEach_form (f # fs) st)" using ih step by simp
  have b: "next_fn (forEach_form (f # fs) st) = next_fn st + length (f # fs)" using ih step by simp
  have c: "console (forEach_form (f # fs) st) = console st" using ih step by simp
  have r: "reported (forEach_form (f # fs) st) = reported st" using ih step by simp
  have e: "\<forall>h. h \<notin> set (f # fs) \<longrightarrow> listeners (forEach_form (f # fs) st) h = listeners st h"
    using ih step by simp
  have g: "\<forall>k < length (f # fs). listeners (forEach_form (f # fs) st) ((f # fs) ! k) =
             listeners st ((f # fs) ! k) @ [submit_listener (next_fn st + k) ((f # fs) ! k)]"
  proof (intro allI impI)
    fix k assume k: "k < length (f # fs)"
    show "listeners (forEach_form (f # fs) st) ((f # fs) ! k) =
             listeners st ((f # fs) ! k) @ [submit_listener (next_fn st + k) ((f # fs) ! k)]"
    proof (cases k)
      case 0
      have "listeners (forEach_form fs ?st1) f = listeners ?st1 f" using ih nf by blast
      then show ?thesis using 0 step by (simp add: submit_listener_def)
    next
      case (Suc j)
      with k have j: "j < length fs" by simp
      then have ne: "fs ! j \<noteq> f" using nf by (metis nth_mem)
      have "listeners (forEach_form fs ?st1) (fs ! j) =
              listeners ?st1 (fs ! j) @ [submit_listener (next_fn ?st1 + j) (fs ! j)]"
        using ih j by blast
      then show ?thesis using Suc step ne by simp
    qed
  qed
  from a b c r e g show ?case by blast
qed

lemma forEach_button_char:
  assumes "ids_below st" and "distinct fs"
  shows "ids_below (forEach_button fs st) \<and>
         next_fn (forEach_button fs st) = next_fn st + length fs \<and>
         console (forEach_button fs st) = console st \<and>
         reported (forEach_button fs st) = reported st \<and>
         (\<forall>h. h \<notin> set fs \<longrightarrow> listeners (forEach_button fs st) h = listeners st h) \<and>
         (\<forall>k < length fs. listeners (forEach_button fs st) (fs ! k) =
             listeners st (fs ! k) @ [click_listener (next_fn st + k) (fs ! k)])"
  using assms
proof (induction fs arbitrary: st)
  case Nil
  then show ?case by simp
next
  case (Cons f fs)
  let ?cb = "\<lparr>fn_id = next_fn st, body = ClickBody, captured = f\<rparr>"
  let ?st1 = "st\<lparr>next_fn := Suc (next_fn st),
              listeners := (listeners st)(f := listeners st f @ [\<lparr>ltype = ''click'', callback = ?cb\<rparr>])\<rparr>"
  have step: "forEach_button (f # fs) st = forEach_button fs ?st1"
    using add_fresh [OF Cons.prems(1), of ?cb f "''click''"] by simp
  have inv1: "ids_below ?st1"
    using ids_below_add [OF Cons.prems(1), of ?cb f "''click''"] by simp
  from Cons.prems(2) have d: "distinct fs" and nf: "f \<notin> set fs" by simp_all
  note ih = Cons.IH [OF inv1 d]
  have a: "ids_below (forEach_button (f # fs) st)" using ih step by simp
  have b: "next_fn (forEach_button (f # fs) st) = next_fn st + length (f # fs)" using ih step by simp
  have c: "console (forEach_button (f # fs) st) = console st" using ih step by simp
  have r: "reported (forEach_button (f # fs) st) = reported st" using ih step by simp
  have e: "\<forall>h. h \<notin> set (f # fs) \<longrightarrow> listeners (forEach_button (f # fs) st) h = listeners st h"
    using ih step by simp
  have g: "\<forall>k < length (f # fs). listeners (forEach_button (f # fs) st) ((f # fs) ! k) =
             listeners st ((f # fs) ! k) @ [click_listener (next_fn st + k) ((f # fs) ! k)]"
  proof (intro allI impI)
    fix k assume k: "k < length (f # fs)"
    show "listeners (forEach_button (f # fs) st) ((f # fs) ! k) =
             listeners st ((f # fs) ! k) @ [click_listener (next_fn st + k) ((f # fs) ! k)]"
    proof (cases k)
      case 0
      have "listeners (forEach_button fs ?st1) f = listeners ?st1 f" using ih nf by blast
      then show ?thesis using 0 step by (simp add: click_listener_def)
    next
      case (Suc j)
      with k have j: "j < length fs" by simp
      then have ne: "fs ! j \<noteq> f" using nf by (metis nth_mem)
      have "listeners (forEach_button fs ?st1) (fs ! j) =
              listeners ?st1 (fs ! j) @ [click_listener (next_fn ?st1 + j) (fs ! j)]"
        using ih j by blast
      then show ?thesis using Suc step ne by simp
    qed
  qed
  from a b c r e g show ?case by blast
qed

lemma bind_forms_char:
  assumes "ids_below st"
  shows "ids_below (bind_forms doc st)"
    and "next_fn (bind_forms doc st) = next_fn st + length (forms_of doc)"
    and "console (bind_forms doc st) = console st"
    and "reported (bind_forms doc st) = reported st"
    and "h \<notin> set (forms_of doc) \<Longrightarrow> listeners (bind_forms doc st) h = listeners st h"
    and "k < length (forms_of doc) \<Longrightarrow> listeners (bind_forms doc st) (forms_of doc ! k) =
           listeners st (forms_of doc ! k) @ [submit_listener (next_fn st + k) (forms_of doc ! k)]"
  using forEach_form_char [OF assms, of "forms_of doc"]
  by (simp_all add: bind_forms_def forms_of_def qsa_distinct)

lemma bind_buttons_char:
  assumes "ids_below st"
  shows "ids_below (bind_buttons doc st)"
    and "next_fn (bind_buttons doc st) = next_fn st + length (buttons_of doc)"
    and "console (bind_buttons doc st) = console st"
    and "reported (bind_buttons doc st) = reported st"
    and "h \<notin> set (buttons_of doc) \<Longrightarrow> listeners (bind_buttons doc st) h = listeners st h"
    and "k < length (buttons_of doc) \<Longrightarrow> listeners (bind_buttons doc st) (buttons_of doc ! k) =
           listeners st (buttons_of doc ! k) @ [click_listener (next_fn st + k) (buttons_of doc ! k)]"
  using forEach_button_char [OF assms, of "buttons_of doc"]
  by (simp_all add: bind_buttons_def buttons_of_def qsa_distinct)

lemma bind_forms_at:
  assumes "ids_below st"
  shows "\<exists>i. listeners (bind_forms doc st) h =
           listeners st h @ (if h \<in> set (forms_of doc) then [submit_listener i h] else [])"
proof (cases "h \<in> set (forms_of doc)")
  case False
  then show ?thesis using bind_forms_char(5) [OF assms] by simp
next
  case True
  then obtain k where "k < length (forms_of doc)" and "forms_of doc ! k = h"
    by (auto simp add: in_set_conv_nth)
  then show ?thesis using bind_forms_char(6) [OF assms, of k doc] True by auto
qed

lemma bind_buttons_at:
  assumes "ids_below st"
  shows "\<exists>j. listeners (bind_buttons doc st) h =
           listeners st h @ (if h \<in> set (buttons_of doc) then [click_listener j h] else [])"
proof (cases "h \<in> set (buttons_of doc)")
  case False
  then show ?thesis using bind_buttons_char(5) [OF assms] by simp
next
  case True
  then obtain k where "k < length (buttons_of doc)" and "buttons_of doc ! k = h"
    by (auto simp add: in_set_conv_nth)
  then show ?thesis using bind_buttons_char(6) [OF assms, of k doc] True by auto
qed

lemma pass_inv:
  assumes "ids_below st"
  shows "ids_below (registration_pass doc st)"
    and "console (registration_pass doc st) = console st"
    and "reported (registration_pass doc st) = reported st"
    and "next_fn (registration_pass doc st) = next_fn st + length (forms_of doc) + length (buttons_of doc)"
  using bind_forms_char(1-4) [OF assms, of doc]
        bind_buttons_char(1-4) [OF bind_forms_char(1) [OF assms, of doc], of doc]
  by (simp_all add: registration_pass_def)

lemma pass_at:
  assumes "ids_below st"
  shows "\<exists>i j. listeners (registration_pass doc st) h =
           listeners st h @ (if h \<in> set (forms_of doc) then [submit_listener i h] else [])
                          @ (if h \<in> set (buttons_of doc) then [click_listener j h] else [])"
proof -
  obtain i where i: "listeners (bind_forms doc st) h =
           listeners st h @ (if h \<in> set (forms_of doc) then [submit_listener i h] else [])"
    using bind_forms_at [OF assms] by blast
  obtain j where j: "listeners (bind_buttons doc (bind_forms doc st)) h =
           listeners (bind_forms doc st) h @ (if h \<in> set (buttons_of doc) then [click_listener j h] else [])"
    using bind_buttons_at [OF bind_forms_char(1) [OF assms]] by blast
  show ?thesis unfolding registration_pass_def using i j by auto
qed

lemma ids_below_fresh: "ids_below fresh_page"
  by (simp add: ids_below_def fresh_page_def)

lemma fresh_listeners: "listeners fresh_page h = []"
  by (simp add: fresh_page_def)

lemma binding_order_forms:
  assumes "k < length (querySelectorAll doc (Tag ''form''))"
  shows "submit_listener k (querySelectorAll doc (Tag ''form'') ! k) \<in>
           set (listeners (registration_pass doc fresh_page) (querySelectorAll doc (Tag ''form'') ! k))"
proof -
  let ?f = "forms_of doc ! k"
  have k: "k < length (forms_of doc)" using assms by (simp add: forms_of_def)
  have 1: "listeners (bind_forms doc fresh_page) ?f = [submit_listener k ?f]"
    using bind_forms_char(6) [OF ids_below_fresh k] by (simp add: fresh_page_def)
  obtain j where "listeners (bind_buttons doc (bind_forms doc fresh_page)) ?f =
      listeners (bind_forms doc fresh_page) ?f @
        (if ?f \<in> set (buttons_of doc) then [click_listener j ?f] else [])"
    using bind_buttons_at [OF bind_forms_char(1) [OF ids_below_fresh]] by blast
  with 1 show ?thesis by (simp add: registration_pass_def forms_of_def)
qed

lemma binding_order_buttons:
  assumes "k < length (querySelectorAll doc (Class ''btn''))"
  shows "click_listener (length (querySelectorAll doc (Tag ''form'')) + k)
             (querySelectorAll doc (Class ''btn'') ! k) \<in>
           set (listeners (registration_pass doc fresh_page) (querySelectorAll doc (Class ''btn'') ! k))"
proof -
  let ?b = "buttons_of doc ! k"
  have k: "k < length (buttons_of doc)" using assms by (simp add: buttons_of_def)
  have n: "next_fn (bind_forms doc fresh_page) = length (forms_of doc)"
    using bind_forms_char(2) [OF ids_below_fresh] by (simp add: fresh_page_def)
  have "listeners (bind_buttons doc (bind_forms doc fresh_page)) ?b =
          listeners (bind_forms doc fresh_page) ?b @
            [click_listener (next_fn (bind_forms doc fresh_page) + k) ?b]"
    using bind_buttons_char(6) [OF bind_forms_char(1) [OF ids_below_fresh] k] by simp
  then show ?thesis using n by (simp add: registration_pass_def forms_of_def buttons_of_def)
qed

section \<open>What the pass leaves alone\<close>

lemma add_frame:
  "console (addEventListener h ty cb st) = console st"
  "reported (addEventListener h ty cb st) = reported st"
  "next_fn (addEventListener h ty cb st) = next_fn st"
  "\<exists>ls. listeners (addEventListener h ty cb st) h' = listeners st h' @ ls"
  by (simp_all add: addEventListener_def)

lemma forEach_form_frame:
  "console (forEach_form fs st) = console st \<and>
   reported (forEach_form fs st) = reported st \<and>
   (\<exists>ls. listeners (forEach_form fs st) h = listeners st h @ ls)"
proof (induction fs arbitrary: st)
  case Nil
  show ?case by simp
next
  case (Cons f fs)
  let ?st1 = "addEventListener f ''submit'' \<lparr>fn_id = next_fn st, body = SubmitBody, captured = f\<rparr>
                (st\<lparr>next_fn := Suc (next_fn st)\<rparr>)"
  obtain l1 where l1: "listeners ?st1 h = listeners st h @ l1"
    using add_frame(4) [of f "''submit''" _ "st\<lparr>next_fn := Suc (next_fn st)\<rparr>" h] by auto
  obtain l2 where l2: "listeners (forEach_form fs ?st1) h = listeners ?st1 h @ l2"
    using Cons.IH [of ?st1] by blast
  have "listeners (forEach_form (f # fs) st) h = listeners st h @ (l1 @ l2)"
    using l1 l2 by simp
  then have "\<exists>ls. listeners (forEach_form (f # fs) st) h = listeners st h @ ls" by blast
  then show ?case using Cons.IH [of ?st1] by (simp add: add_frame)
qed

lemma forEach_button_frame:
  "console (forEach_button fs st) = console st \<and>
   reported (forEach_button fs st) = reported st \<and>
   (\<exists>ls. listeners (forEach_button fs st) h = listeners st h @ ls)"
proof (induction fs arbitrary: st)
  case Nil
  show ?case by simp
next
  case (Cons f fs)
  let ?st1 = "addEventListener f ''click'' \<lparr>fn_id = next_fn st, body = ClickBody, captured = f\<rparr>
                (st\<lparr>next_fn := Suc (next_fn st)\<rparr>)"
  obtain l1 where l1: "listeners ?st1 h = listeners st h @ l1"
    using add_frame(4) [of f "''click''" _ "st\<lparr>next_fn := Suc (next_fn st)\<rparr>" h] by auto
  obtain l2 where l2: "listeners (forEach_button fs ?st1) h = listeners ?st1 h @ l2"
    using Cons.IH [of ?st1] by blast
  have "listeners (forEach_button (f # fs) st) h = listeners st h @ (l1 @ l2)"
    using l1 l2 by simp
  then have "\<exists>ls. listeners (forEach_button (f # fs) st) h = listeners st h @ ls" by blast
  then show ?case using Cons.IH [of ?st1] by (simp add: add_frame)
qed

lemma pass_frame:
  "console (registration_pass doc st) = console st"
  "reported (registration_pass doc st) = reported st"
  "\<exists>ls. listeners (registration_pass doc st) h = listeners st h @ ls"
proof -
  show "console (registration_pass doc st) = console st"
    by (simp add: registration_pass_def bind_forms_def bind_buttons_def
        forEach_form_frame forEach_button_frame)
  show "reported (registration_pass doc st) = reported st"
    by (simp add: registration_pass_def bind_forms_def bind_buttons_def
        forEach_form_frame forEach_button_frame)
  obtain l1 where l1: "listeners (bind_forms doc st) h = listeners st h @ l1"
    using forEach_form_frame [of "querySelectorAll doc (Tag ''form'')" st h]
    by (auto simp add: bind_forms_def)
  obtain l2 where "listeners (bind_buttons doc (bind_forms doc st)) h =
      listeners (bind_forms doc st) h @ l2"
    using forEach_button_frame [of "querySelectorAll doc (Class ''btn'')" "bind_forms doc st" h]
    by (auto simp add: bind_buttons_def)
  with l1 have "listeners (registration_pass doc st) h = listeners st h @ (l1 @ l2)"
    by (simp add: registration_pass_def)
  then show "\<exists>ls. listeners (registration_pass doc st) h = listeners st h @ ls" by blast
qed

section \<open>What the bound listeners print\<close>

lemma emitted_pass:
  assumes "ids_below st"
  shows "emitted ty (listeners (registration_pass doc st) h) =
           emitted ty (listeners st h) @ emitted_once doc ty h"
proof -
  obtain i j where "listeners (registration_pass doc st) h =
           listeners st h @ (if h \<in> set (forms_of doc) then [submit_listener i h] else [])
                          @ (if h \<in> set (buttons_of doc) then [click_listener j h] else [])"
    using pass_at [OF assms] by blast
  then show ?thesis
    by (simp add: emitted_def emitted_once_def submit_listener_def click_listener_def trace_of_def)
qed

lemma prevents_pass:
  assumes "ids_below st"
  shows "prevents ty (listeners (registration_pass doc st) h) =
           (prevents ty (listeners st h) \<or> (ty = ''submit'' \<and> h \<in> set (forms_of doc)))"
proof -
  obtain i j where "listeners (registration_pass doc st) h =
           listeners st h @ (if h \<in> set (forms_of doc) then [submit_listener i h] else [])
                          @ (if h \<in> set (buttons_of doc) then [click_listener j h] else [])"
    using pass_at [OF assms] by blast
  then show ?thesis
    by (auto simp add: prevents_def submit_listener_def click_listener_def)
qed

lemma concat_replicate_Suc: "concat (replicate (Suc n) xs) = concat (replicate n xs) @ xs"
  by (induction n) simp_all

lemma passes_inv: "ids_below ((registration_pass doc ^^ n) fresh_page)"
  by (induction n) (simp_all add: ids_below_fresh pass_inv(1))

lemma emitted_passes:
  "emitted ty (listeners ((registration_pass doc ^^ n) fresh_page) h) =
     concat (replicate n (emitted_once doc ty h))"
proof (induction n)
  case 0
  show ?case by (simp add: fresh_page_def emitted_def)
next
  case (Suc n)
  have "emitted ty (listeners ((registration_pass doc ^^ Suc n) fresh_page) h) =
          concat (replicate n (emitted_once doc ty h)) @ emitted_once doc ty h"
    using Suc.IH by (simp add: emitted_pass passes_inv)
  then show ?case by (simp only: concat_replicate_Suc)
qed

lemma prevents_passes:
  "prevents ty (listeners ((registration_pass doc ^^ n) fresh_page) h) =
     (0 < n \<and> ty = ''submit'' \<and> h \<in> set (forms_of doc))"
proof (induction n)
  case 0
  show ?case by (simp add: fresh_page_def prevents_def)
next
  case (Suc n)
  show ?case using Suc.IH by (auto simp add: prevents_pass passes_inv)
qed

lemma passes_console: "console ((registration_pass doc ^^ n) fresh_page) = []"
proof (induction n)
  case 0
  show ?case by (simp add: fresh_page_def)
next
  case (Suc n)
  then show ?case by (simp add: pass_inv(2) passes_inv)
qed

lemma emitted_pass1:
  "emitted ty (listeners (registration_pass doc fresh_page) h) = emitted_once doc ty h"
  using emitted_passes [where n = 1 and ty = ty and doc = doc and h = h] by simp

lemma prevents_pass1:
  "prevents ty (listeners (registration_pass doc fresh_page) h) =
     (ty = ''submit'' \<and> h \<in> set (forms_of doc))"
  using prevents_passes [where n = 1 and ty = ty and doc = doc and h = h] by simp

lemma emitted_pass2:
  "emitted ty (listeners (registration_pass doc (registration_pass doc fresh_page)) h) =
     emitted_once doc ty h @ emitted_once doc ty h"
  by (simp add: emitted_pass pass_inv(1) ids_below_fresh emitted_pass1)

lemma console_pass1: "console (registration_pass doc fresh_page) = []"
proof -
  have "console fresh_page = []" by (simp add: fresh_page_def)
  then show ?thesis by (simp add: pass_inv(2) ids_below_fresh)
qed

lemma console_pass2: "console (registration_pass doc (registration_pass doc fresh_page)) = []"
proof -
  have "console fresh_page = []" by (simp add: fresh_page_def)
  then show ?thesis by (simp add: pass_inv(1,2) ids_below_fresh)
qed

lemma emitted_once_ref: "t \<in> set (emitted_once doc ty h) \<Longrightarrow> snd t = h"
  by (auto simp add: emitted_once_def split: if_splits)

lemma emitted_once_labels:
  "t \<in> set (emitted_once doc ty h) \<Longrightarrow> fst t = ''Form submitted:'' \<or> fst t = ''Button clicked:''"
  by (auto simp add: emitted_once_def split: if_splits)

lemma emitted_once_click:
  "emitted_once doc ''click'' a =
     (if a \<in> set (querySelectorAll doc (Class ''btn'')) then [(''Button clicked:'', a)] else [])"
  by (simp add: emitted_once_def buttons_of_def)

lemma ancestors_traces:
  assumes "\<forall>a \<in> set rest. a < (h::nat)"
  shows "\<forall>t \<in> set (concat (map (\<lambda>a. concat (replicate n (emitted_once doc ty a))) rest)). snd t \<noteq> h"
  using assms by (fastforce dest: emitted_once_ref)

lemma ids_below_unbound: "ids_below (unbound_page c r n)"
  by (simp add: ids_below_def unbound_page_def)

lemma emitted_unbound:
  "emitted ty (listeners (registration_pass doc (unbound_page c r n)) h) = emitted_once doc ty h"
  by (simp add: emitted_pass ids_below_unbound) (simp add: unbound_page_def emitted_def)

lemma prevents_unbound:
  "prevents ty (listeners (registration_pass doc (unbound_page c r n)) h) =
     (ty = ''submit'' \<and> h \<in> set (forms_of doc))"
  by (simp add: prevents_pass ids_below_unbound) (simp add: unbound_page_def prevents_def)

lemma console_unbound: "console (registration_pass doc (unbound_page c r n)) = c"
  by (simp add: pass_frame) (simp add: unbound_page_def)

section \<open>Delivery with the browser's console\<close>

lemma call_std:
  "call std_console f (ev, st) =
     (None, (if body f = SubmitBody then preventDefault ev else ev),
      st\<lparr>console := console st @ [trace_of f]\<rparr>)"
  by (cases "body f") (simp_all add: call_def console_log_def std_console_def trace_of_def)

lemma inner_invoke_std:
  "inner_invoke std_console ls (ev, st) =
     (ev\<lparr>canceled := canceled ev \<or> (cancelable ev \<and> prevents (etype ev) ls)\<rparr>,
      st\<lparr>console := console st @ emitted (etype ev) ls\<rparr>)"
proof (induction ls arbitrary: ev st)
  case Nil
  show ?case by (simp add: prevents_def emitted_def)
next
  case (Cons l ls)
  show ?case
  proof (cases "ltype l = etype ev")
    case False
    then show ?thesis using Cons.IH [of ev st] by (simp add: prevents_def emitted_def)
  next
    case True
    show ?thesis
    proof (cases "body (callback l) = SubmitBody")
      case s: True
      then show ?thesis using True Cons.IH [of "preventDefault ev" "st\<lparr>console := console st @ [trace_of (callback l)]\<rparr>"]
        by (auto simp add: call_std prevents_def emitted_def preventDefault_def)
    next
      case s: False
      then show ?thesis using True Cons.IH [of ev "st\<lparr>console := console st @ [trace_of (callback l)]\<rparr>"]
        by (auto simp add: call_std prevents_def emitted_def)
    qed
  qed
qed

lemma invoke_path_std:
  "invoke_path std_console hs (ev, st) =
     (ev\<lparr>canceled := canceled ev \<or> (cancelable ev \<and> list_ex (\<lambda>h. prevents (etype ev) (listeners st h)) hs)\<rparr>,
      st\<lparr>console := console st @ concat (map (\<lambda>h. emitted (etype ev) (listeners st h)) hs)\<rparr>)"
proof (induction hs arbitrary: ev st)
  case Nil
  show ?case by simp
next
  case (Cons h hs)
  show ?case
    by (simp add: inner_invoke_std Cons.IH conj_disj_distribL)
qed

lemma deliver_std:
  "deliver std_console doc ev st =
     (ev\<lparr>canceled := outcome doc (listeners st) ev\<rparr>,
      st\<lparr>console := console st @ traces_of doc (listeners st) ev\<rparr>)"
  by (simp add: deliver_def invoke_path_std outcome_def traces_of_def)

lemma concat_all_empty: "(\<And>x. x \<in> set xs \<Longrightarrow> f x = []) \<Longrightarrow> concat (map f xs) = []"
  by (induction xs) simp_all

lemma concat_map_if:
  "concat (map (\<lambda>a. if P a then [f a] else []) xs) = map f (filter P xs)"
  by (induction xs) simp_all

lemma unnested_path:
  assumes "b \<in> set (querySelectorAll doc (Class ''btn''))"
    and "\<forall>a \<in> set (tl (path_from doc b)). a \<notin> set (querySelectorAll doc (Class ''btn''))"
  shows "filter (\<lambda>a. a \<in> set (querySelectorAll doc (Class ''btn''))) (path_from doc b) = [b]"
proof -
  from assms(1) have "b < length doc" by (simp add: qsa_set)
  then obtain rest where p: "path_from doc b = b # rest"
    using path_from_cons by blast
  with assms(2) have "filter (\<lambda>a. a \<in> set (querySelectorAll doc (Class ''btn''))) rest = []"
    by (simp add: filter_empty_conv)
  with p assms(1) show ?thesis by simp
qed

section \<open>Delivery with any console\<close>

lemma call_any:
  "\<exists>e c. call throws f (ev, st) =
     (e, (if body f = SubmitBody then preventDefault ev else ev), st\<lparr>console := c\<rparr>)"
proof (cases "body f")
  case SubmitBody
  show ?thesis
  proof (cases "throws (''Form submitted:'', captured f)")
    case True
    then have "call throws f (ev, st) =
        (Some (LogFailure (''Form submitted:'', captured f)), preventDefault ev, st\<lparr>console := console st\<rparr>)"
      using SubmitBody by (simp add: call_def console_log_def)
    then show ?thesis using SubmitBody
      by (intro exI [of _ "Some (LogFailure (''Form submitted:'', captured f))"]
                exI [of _ "console st"]) simp
  next
    case False
    then have "call throws f (ev, st) =
        (None, preventDefault ev, st\<lparr>console := console st @ [(''Form submitted:'', captured f)]\<rparr>)"
      using SubmitBody by (simp add: call_def console_log_def)
    then show ?thesis using SubmitBody by auto
  qed
next
  case ClickBody
  show ?thesis
  proof (cases "throws (''Button clicked:'', captured f)")
    case True
    then have "call throws f (ev, st) =
        (Some (LogFailure (''Button clicked:'', captured f)), ev, st\<lparr>console := console st\<rparr>)"
      using ClickBody by (simp add: call_def console_log_def)
    then show ?thesis using ClickBody
      by (intro exI [of _ "Some (LogFailure (''Button clicked:'', captured f))"]
                exI [of _ "console st"]) simp
  next
    case False
    then have "call throws f (ev, st) =
        (None, ev, st\<lparr>console := console st @ [(''Button clicked:'', captured f)]\<rparr>)"
      using ClickBody by (simp add: call_def console_log_def)
    then show ?thesis using ClickBody by auto
  qed
qed

lemma inner_invoke_any:
  "fst (inner_invoke throws ls (ev, st)) =
     ev\<lparr>canceled := canceled ev \<or> (cancelable ev \<and> prevents (etype ev) ls)\<rparr> \<and>
   listeners (snd (inner_invoke throws ls (ev, st))) = listeners st \<and>
   next_fn (snd (inner_invoke throws ls (ev, st))) = next_fn st"
proof (induction ls arbitrary: ev st)
  case Nil
  show ?case by (simp add: prevents_def)
next
  case (Cons l ls)
  show ?case
  proof (cases "ltype l = etype ev")
    case False
    then show ?thesis using Cons.IH [of ev st] by (simp add: prevents_def)
  next
    case True
    let ?ev1 = "if body (callback l) = SubmitBody then preventDefault ev else ev"
    obtain e c where c: "call throws (callback l) (ev, st) = (e, ?ev1, st\<lparr>console := c\<rparr>)"
      using call_any by blast
    have t: "etype ?ev1 = etype ev" "cancelable ?ev1 = cancelable ev"
      by (simp_all add: preventDefault_def)
    show ?thesis
    proof (cases e)
      case None
      then have "inner_invoke throws (l # ls) (ev, st) =
                   inner_invoke throws ls (?ev1, st\<lparr>console := c\<rparr>)"
        using True c by simp
      then show ?thesis
        using Cons.IH [of ?ev1 "st\<lparr>console := c\<rparr>"] True
        by (auto simp add: prevents_def preventDefault_def)
    next
      case (Some x)
      then have "inner_invoke throws (l # ls) (ev, st) =
                   inner_invoke throws ls (?ev1, st\<lparr>console := c, reported := reported st @ [x]\<rparr>)"
        using True c by simp
      then show ?thesis
        using Cons.IH [of ?ev1 "st\<lparr>console := c, reported := reported st @ [x]\<rparr>"] True
        by (auto simp add: prevents_def preventDefault_def)
    qed
  qed
qed

lemma invoke_path_any:
  "fst (invoke_path throws hs (ev, st)) =
     ev\<lparr>canceled := canceled ev \<or>
          (cancelable ev \<and> list_ex (\<lambda>h. prevents (etype ev) (listeners st h)) hs)\<rparr> \<and>
   listeners (snd (invoke_path throws hs (ev, st))) = listeners st \<and>
   next_fn (snd (invoke_path throws hs (ev, st))) = next_fn st"
proof (induction hs arbitrary: ev st)
  case Nil
  show ?case by simp
next
  case (Cons h hs)
  obtain ev1 st1 where s: "inner_invoke throws (listeners st h) (ev, st) = (ev1, st1)"
    by (cases "inner_invoke throws (listeners st h) (ev, st)")
  have 1: "ev1 = ev\<lparr>canceled := canceled ev \<or> (cancelable ev \<and> prevents (etype ev) (listeners st h))\<rparr>"
    and 2: "listeners st1 = listeners st" and 3: "next_fn st1 = next_fn st"
    using inner_invoke_any [of throws "listeners st h" ev st] s by simp_all
  show ?case using Cons.IH [of ev1 st1] s 2 3
    by (simp add: 1 conj_disj_distribL)
qed

lemma deliver_any:
  "fst (deliver throws doc ev st) = ev\<lparr>canceled := outcome doc (listeners st) ev\<rparr>"
  "listeners (snd (deliver throws doc ev st)) = listeners st"
  "next_fn (snd (deliver throws doc ev st)) = next_fn st"
  using invoke_path_any [of throws "event_path doc ev" ev st]
  by (simp_all add: deliver_def outcome_def)

section \<open>Dispatch and activation\<close>

text \<open>A dispatch returns the event as its delivery left it and leaves the lines of the
  delivery followed by those of the events the activation behaviour fires; no listener
  and no function object changes.\<close>

declare dispatch_from.simps [simp del] chain_lines.simps [simp del]

lemma dispatch_from_fst:
  "fst (dispatch_from throws doc busy ev st) = fst (deliver throws doc ev st)"
  by (simp add: dispatch_from.simps [of throws doc busy ev st] Let_def
      split: option.splits activation.splits)

lemma dispatch_from_frame:
  "listeners (snd (dispatch_from throws doc busy ev st)) = listeners st \<and>
   next_fn (snd (dispatch_from throws doc busy ev st)) = next_fn st"
proof (induction throws doc busy ev st rule: dispatch_from.induct)
  case (1 throws doc busy ev st)
  let ?d = "deliver throws doc ev st"
  note s = dispatch_from.simps [of throws doc busy ev st]
  show ?case
  proof (cases "etype ev = ''click'' \<and> \<not> canceled (fst ?d)")
    case False
    then show ?thesis by (auto simp add: s Let_def deliver_any)
  next
    case click: True
    show ?thesis
    proof (cases "activation_target doc (event_path doc ev)")
      case None
      with click show ?thesis by (simp add: s Let_def deliver_any)
    next
      case (Some a)
      show ?thesis
      proof (cases "activation (doc ! a)")
        case Inert
        with click Some show ?thesis by (simp add: s Let_def deliver_any)
      next
        case OtherDefault
        with click Some show ?thesis by (simp add: s Let_def deliver_any)
      next
        case (Submits f)
        with click Some show ?thesis by (simp add: s Let_def deliver_any)
      next
        case (Forwards c)
        show ?thesis
        proof (cases "a < length doc \<and> a \<notin> set busy \<and> c \<notin> set (path_from doc (target ev))")
          case False
          with click Some Forwards show ?thesis by (auto simp add: s Let_def deliver_any)
        next
          case True
          have "listeners (snd (dispatch_from throws doc (a # busy) (click_event c) (snd ?d))) =
                  listeners (snd ?d) \<and>
                next_fn (snd (dispatch_from throws doc (a # busy) (click_event c) (snd ?d))) =
                  next_fn (snd ?d)"
            using "1.IH" [OF refl click Some Forwards True] .
          with click Some Forwards True show ?thesis by (simp add: s Let_def deliver_any)
        qed
      qed
    qed
  qed
qed

lemma dispatch_from_std:
  "dispatch_from std_console doc busy ev st =
     (ev\<lparr>canceled := outcome doc (listeners st) ev\<rparr>,
      st\<lparr>console := console st @
         chain_lines doc (traces_of doc (listeners st)) (outcome doc (listeners st)) busy ev\<rparr>)"
proof (induction std_console doc busy ev st rule: dispatch_from.induct)
  case (1 doc busy ev st)
  let ?T = "traces_of doc (listeners st)"
  let ?C = "outcome doc (listeners st)"
  let ?d = "deliver std_console doc ev st"
  note s = dispatch_from.simps [of std_console doc busy ev st]
  note c = chain_lines.simps [of doc ?T ?C busy ev]
  have d: "?d = (ev\<lparr>canceled := ?C ev\<rparr>, st\<lparr>console := console st @ ?T ev\<rparr>)"
    by (rule deliver_std)
  show ?case
  proof (cases "etype ev = ''click'' \<and> \<not> ?C ev")
    case False
    then show ?thesis by (auto simp add: s c d Let_def)
  next
    case click: True
    show ?thesis
    proof (cases "activation_target doc (event_path doc ev)")
      case None
      with click show ?thesis by (simp add: s c d Let_def)
    next
      case (Some a)
      show ?thesis
      proof (cases "activation (doc ! a)")
        case Inert
        with click Some show ?thesis by (simp add: s c d Let_def)
      next
        case OtherDefault
        with click Some show ?thesis by (simp add: s c d Let_def)
      next
        case (Submits f)
        with click Some show ?thesis by (simp add: s c d Let_def deliver_std)
      next
        case (Forwards c')
        show ?thesis
        proof (cases "a < length doc \<and> a \<notin> set busy \<and> c' \<notin> set (path_from doc (target ev))")
          case False
          with click Some Forwards show ?thesis by (auto simp add: s c d Let_def)
        next
          case True
          have cl: "etype ev = ''click'' \<and> \<not> canceled (fst ?d)"
            using click by (simp add: d)
          have "dispatch_from std_console doc (a # busy) (click_event c') (snd ?d) =
            ((click_event c')\<lparr>canceled := outcome doc (listeners (snd ?d)) (click_event c')\<rparr>,
             (snd ?d)\<lparr>console := console (snd ?d) @
                chain_lines doc (traces_of doc (listeners (snd ?d)))
                  (outcome doc (listeners (snd ?d))) (a # busy) (click_event c')\<rparr>)"
            using "1.hyps" [OF refl cl Some Forwards True] .
          with click Some Forwards True show ?thesis by (simp add: s c d Let_def)
        qed
      qed
    qed
  qed
qed

lemma dispatch_std:
  "dispatchEvent std_console doc ev st =
     (ev\<lparr>canceled := outcome doc (listeners st) ev\<rparr>,
      st\<lparr>console := console st @
         chain_lines doc (traces_of doc (listeners st)) (outcome doc (listeners st)) [] ev\<rparr>)"
  by (simp add: dispatchEvent_def dispatch_from_std)

lemma dispatch_any:
  "fst (dispatchEvent throws doc ev st) =
     ev\<lparr>canceled := canceled ev \<or>
          (cancelable ev \<and> list_ex (\<lambda>h. prevents (etype ev) (listeners st h)) (event_path doc ev))\<rparr>"
  "listeners (snd (dispatchEvent throws doc ev st)) = listeners st"
  "next_fn (snd (dispatchEvent throws doc ev st)) = next_fn st"
  by (simp_all add: dispatchEvent_def dispatch_from_fst dispatch_from_frame deliver_any
      outcome_def)

lemma dispatch_other:
  "etype ev \<noteq> ''click'' \<Longrightarrow> dispatchEvent throws doc ev st = deliver throws doc ev st"
  by (simp add: dispatchEvent_def dispatch_from.simps [of throws doc "[]" ev st] Let_def)

lemma submit_dispatch_std:
  "dispatchEvent std_console doc (submit_event f) st =
     ((submit_event f)\<lparr>canceled := canceled (submit_event f) \<or>
           (cancelable (submit_event f) \<and>
            list_ex (\<lambda>h. prevents (etype (submit_event f)) (listeners st h))
              (event_path doc (submit_event f)))\<rparr>,
      st\<lparr>console := console st @
           concat (map (\<lambda>h. emitted (etype (submit_event f)) (listeners st h))
             (event_path doc (submit_event f)))\<rparr>)"
proof -
  have "etype (submit_event f) \<noteq> ''click''" by (simp add: submit_event_def)
  then have "dispatchEvent std_console doc (submit_event f) st =
               deliver std_console doc (submit_event f) st"
    by (rule dispatch_other)
  then show ?thesis by (simp only: deliver_std outcome_def traces_of_def)
qed

lemma submit_dispatch_any:
  "fst (dispatchEvent throws doc (submit_event f) st) =
     (submit_event f)\<lparr>canceled := canceled (submit_event f) \<or>
          (cancelable (submit_event f) \<and>
           list_ex (\<lambda>h. prevents (etype (submit_event f)) (listeners st h))
             (event_path doc (submit_event f)))\<rparr>"
  by (rule dispatch_any(1))


lemma chain_lines_quiet:
  assumes "follow_up doc b = Inert \<or> follow_up doc b = OtherDefault"
  shows "chain_lines doc T C busy (click_event b) = T (click_event b)"
proof -
  have p: "event_path doc (click_event b) = path_from doc b"
    by (simp add: event_path_def click_event_def)
  show ?thesis
    using assms
    by (auto simp add: chain_lines.simps [of doc T C busy "click_event b"] p follow_up_def
        split: option.splits activation.splits)
qed


lemma chain_lines_submit:
  assumes "\<not> C (click_event b)" and "follow_up doc b = Submits f"
  shows "chain_lines doc T C busy (click_event b) = T (click_event b) @ T (submit_event f)"
proof -
  have p: "event_path doc (click_event b) = path_from doc b"
    by (simp add: event_path_def click_event_def)
  have e: "etype (click_event b) = ''click''" by (simp add: click_event_def)
  show ?thesis
    using assms
    by (auto simp add: chain_lines.simps [of doc T C busy "click_event b"] p e follow_up_def
        split: option.splits activation.splits)
qed


lemma chain_lines_mem:
  "t \<in> set (chain_lines doc T C busy ev) \<Longrightarrow>
     t \<in> set (T ev) \<or> (\<exists>f. t \<in> set (T (submit_event f))) \<or> (\<exists>c. t \<in> set (T (click_event c)))"
proof (induction doc T C busy ev rule: chain_lines.induct)
  case (1 doc T C busy ev)
  note s = chain_lines.simps [of doc T C busy ev]
  show ?case
  proof (cases "t \<in> set (T ev)")
    case True
    then show ?thesis by simp
  next
    case nt: False
    show ?thesis
    proof (cases "etype ev = ''click'' \<and> \<not> C ev")
      case False
      with "1.prems" nt show ?thesis by (auto simp add: s)
    next
      case click: True
      show ?thesis
      proof (cases "activation_target doc (event_path doc ev)")
        case None
        with "1.prems" nt click show ?thesis by (simp add: s)
      next
        case (Some a)
        show ?thesis
        proof (cases "activation (doc ! a)")
          case Inert
          with "1.prems" nt click Some show ?thesis by (simp add: s)
        next
          case OtherDefault
          with "1.prems" nt click Some show ?thesis by (simp add: s)
        next
          case (Submits f)
          with "1.prems" nt click Some show ?thesis by (auto simp add: s)
        next
          case (Forwards c)
          show ?thesis
          proof (cases "a < length doc \<and> a \<notin> set busy \<and> c \<notin> set (path_from doc (target ev))")
            case False
            with "1.prems" nt click Some Forwards show ?thesis by (auto simp add: s)
          next
            case True
            with "1.prems" nt click Some Forwards
            have "t \<in> set (chain_lines doc T C (a # busy) (click_event c))"
              by (simp add: s)
            then show ?thesis using "1.IH" [OF click Some Forwards True] by blast
          qed
        qed
      qed
    qed
  qed
qed

lemma interact_std:
  "interact doc evs st =
     (map (outcome doc (listeners st)) evs,
      st\<lparr>console := console st @
         concat (map (chain_lines doc (traces_of doc (listeners st))
                        (outcome doc (listeners st)) []) evs)\<rparr>)"
proof (induction evs arbitrary: st)
  case Nil
  show ?case by simp
next
  case (Cons ev evs)
  show ?case by (simp add: dispatch_std Cons.IH)
qed

lemma interact_listeners: "listeners (snd (interact doc evs st)) = listeners st"
  by (simp add: interact_std)

lemma traces_pass1:
  "traces_of doc (listeners (registration_pass doc fresh_page)) = doc_traces doc"
  by (rule ext) (simp add: traces_of_def doc_traces_def emitted_pass1)

lemma outcome_pass1:
  "outcome doc (listeners (registration_pass doc fresh_page)) = doc_outcome doc"
  by (rule ext) (auto simp add: outcome_def doc_outcome_def prevents_pass1 forms_of_def list_ex_iff)

lemma traces_unbound:
  "traces_of doc (listeners (registration_pass doc (unbound_page c r n))) = doc_traces doc"
  by (rule ext) (simp add: traces_of_def doc_traces_def emitted_unbound)

lemma outcome_unbound:
  "outcome doc (listeners (registration_pass doc (unbound_page c r n))) = doc_outcome doc"
  by (rule ext) (auto simp add: outcome_def doc_outcome_def prevents_unbound forms_of_def list_ex_iff)

lemma doc_traces_labels:
  "t \<in> set (doc_traces doc ev) \<Longrightarrow> fst t = ''Form submitted:'' \<or> fst t = ''Button clicked:''"
  using emitted_once_labels by (fastforce simp add: doc_traces_def)

lemma doc_traces_click:
  "doc_traces doc (click_event b) =
     map (Pair ''Button clicked:'')
       (filter (\<lambda>a. a \<in> set (querySelectorAll doc (Class ''btn''))) (path_from doc b))"
proof -
  have "emitted_once doc ''click'' =
          (\<lambda>a. if a \<in> set (querySelectorAll doc (Class ''btn''))
                then [(''Button clicked:'', a)] else [])"
    by (rule ext) (simp add: emitted_once_click)
  then show ?thesis
    by (simp add: doc_traces_def click_event_def event_path_def concat_map_if)
qed

lemma doc_traces_submit:
  "t \<in> set (doc_traces doc (submit_event f)) \<Longrightarrow> fst t = ''Form submitted:''"
  by (auto simp add: doc_traces_def submit_event_def emitted_once_def split: if_splits)

lemma doc_traces_no_buttons:
  "querySelectorAll doc (Class ''btn'') = [] \<Longrightarrow> doc_traces doc (click_event c) = []"
  by (simp add: doc_traces_click)

lemma doc_traces_no_forms:
  assumes "querySelectorAll doc (Tag ''form'') = []"
  shows "doc_traces doc (submit_event f) = []"
  unfolding doc_traces_def
  using assms by (intro concat_all_empty) (simp add: emitted_once_def forms_of_def submit_event_def)

lemma doc_outcome_click: "\<not> doc_outcome doc (click_event b)"
  by (simp add: doc_outcome_def click_event_def)

lemma click_event_same: "(click_event b)\<lparr>canceled := doc_outcome doc (click_event b)\<rparr> = click_event b"
  by (simp add: doc_outcome_def click_event_def)

lemma dispatch_after_pass:
  assumes "listeners st = listeners (registration_pass doc fresh_page)"
  shows "dispatchEvent std_console doc ev st =
     (ev\<lparr>canceled := doc_outcome doc ev\<rparr>,
      st\<lparr>console := console st @ chain_lines doc (doc_traces doc) (doc_outcome doc) [] ev\<rparr>)"
  by (simp add: dispatch_std assms traces_pass1 outcome_pass1)

lemma quiet_clicks_console:
  assumes "\<forall>b \<in> set bs. follow_up doc b = Inert \<or> follow_up doc b = OtherDefault"
  shows "console (snd (interact doc (map click_event bs) (registration_pass doc fresh_page))) =
     concat (map (\<lambda>b. map (Pair ''Button clicked:'')
       (filter (\<lambda>a. a \<in> set (querySelectorAll doc (Class ''btn''))) (path_from doc b))) bs)"
proof -
  have "map (chain_lines doc (doc_traces doc) (doc_outcome doc) []) (map click_event bs) =
          map (\<lambda>b. map (Pair ''Button clicked:'')
       (filter (\<lambda>a. a \<in> set (querySelectorAll doc (Class ''btn''))) (path_from doc b))) bs"
    unfolding map_map
  proof (rule map_cong [OF refl])
    fix b assume "b \<in> set bs"
    with assms have "follow_up doc b = Inert \<or> follow_up doc b = OtherDefault" by blast
    then show "(chain_lines doc (doc_traces doc) (doc_outcome doc) [] \<circ> click_event) b =
        map (Pair ''Button clicked:'')
          (filter (\<lambda>a. a \<in> set (querySelectorAll doc (Class ''btn''))) (path_from doc b))"
      by (simp add: chain_lines_quiet doc_traces_click)
  qed
  then have "concat (map (chain_lines doc (doc_traces doc) (doc_outcome doc) []) (map click_event bs)) =
          concat (map (\<lambda>b. map (Pair ''Button clicked:'')
       (filter (\<lambda>a. a \<in> set (querySelectorAll doc (Class ''btn''))) (path_from doc b))) bs)"
    by (rule arg_cong)
  then show ?thesis
    by (simp only: interact_std snd_conv traces_pass1 outcome_pass1 console_pass1)
       (simp add: console_pass1)
qed

lemma run_unbound:
  "interact doc evs (registration_pass doc (unbound_page c r n)) =
     (script_outcomes doc evs,
      (registration_pass doc (unbound_page c r n))\<lparr>console := c @ script_traces doc evs\<rparr>)"
  unfolding interact_std traces_unbound outcome_unbound
  by (simp add: console_unbound script_traces_def script_outcomes_def)

section \<open>Events fired at the document\<close>

lemma fire_listeners: "document_listeners (fire doc name w) = document_listeners w"
  by (simp add: fire_def)

lemma fire_current:
  assumes "document_listeners w = [''DOMContentLoaded'']"
  shows "current (fire doc name w) =
           (if name = ''DOMContentLoaded'' then registration_pass doc (current w) else current w)"
  using assms by (auto simp add: fire_def)

lemma fire_all_count:
  assumes "document_listeners w = [''DOMContentLoaded'']"
  shows "current (fire_all doc names w) =
           (registration_pass doc ^^ count_list names ''DOMContentLoaded'') (current w)"
  using assms
proof (induction names arbitrary: w)
  case Nil
  show ?case by simp
next
  case (Cons name names)
  have l: "document_listeners (fire doc name w) = [''DOMContentLoaded'']"
    using Cons.prems by (simp add: fire_listeners)
  show ?case
    using Cons.IH [OF l] fire_current [OF Cons.prems, of doc name]
    by (simp add: funpow_swap1)
qed

lemma main_js_listeners: "document_listeners (main_js new_context) = [''DOMContentLoaded'']"
  by (simp add: main_js_def new_context_def)

lemma main_js_current: "current (main_js new_context) = fresh_page"
  by (simp add: main_js_def new_context_def)

section \<open>The example documents, evaluated\<close>

lemma login_forms: "querySelectorAll login_page (Tag ''form'') = [0]"
  by (simp add: querySelectorAll_def login_page_def upt_rec)


lemma login_path0: "event_path login_page (submit_event 0) = [0]"
  by (simp add: event_path_def submit_event_def path_from_root login_page_def)

lemma plain_forms: "querySelectorAll plain_page (Tag ''form'') = []"
  by (simp add: querySelectorAll_def plain_page_def upt_rec)

lemma plain_buttons: "querySelectorAll plain_page (Class ''btn'') = []"
  by (simp add: querySelectorAll_def plain_page_def upt_rec)

lemma card_buttons: "querySelectorAll card_page (Class ''btn'') = [0, 1, 2]"
  by (simp add: querySelectorAll_def card_page_def upt_rec)

lemma card_paths:
  "path_from card_page 0 = [0]" "path_from card_page (Suc 0) = [Suc 0, 0]"
  "path_from card_page 2 = [2]"
proof -
  show 0: "path_from card_page 0 = [0]"
    by (simp add: path_from_root card_page_def)
  have "path_from card_page (Suc 0) = Suc 0 # path_from card_page 0"
    by (rule path_from_child) (simp_all add: card_page_def)
  with 0 show "path_from card_page (Suc 0) = [Suc 0, 0]" by simp
  show "path_from card_page 2 = [2]"
    by (simp add: path_from_root card_page_def)
qed

lemma toolbar_buttons: "querySelectorAll toolbar_page (Class ''btn'') = [1, 2, 3]"
  by (simp add: querySelectorAll_def toolbar_page_def upt_rec)

lemma toolbar_paths:
  "path_from toolbar_page (Suc 0) = [Suc 0, 0]" "path_from toolbar_page 2 = [2, 0]"
  "path_from toolbar_page 3 = [3, 0]"
proof -
  have 0: "path_from toolbar_page 0 = [0]"
    by (simp add: path_from_root toolbar_page_def)
  have "path_from toolbar_page (Suc 0) = Suc 0 # path_from toolbar_page 0"
    by (rule path_from_child) (simp_all add: toolbar_page_def)
  with 0 show "path_from toolbar_page (Suc 0) = [Suc 0, 0]" by simp
  have "path_from toolbar_page 2 = 2 # path_from toolbar_page 0"
    by (rule path_from_child) (simp_all add: toolbar_page_def)
  with 0 show "path_from toolbar_page 2 = [2, 0]" by simp
  have "path_from toolbar_page 3 = 3 # path_from toolbar_page 0"
    by (rule path_from_child) (simp_all add: toolbar_page_def)
  with 0 show "path_from toolbar_page 3 = [3, 0]" by simp
qed



lemma search_forms: "querySelectorAll search_page (Tag ''form'') = [0]"
  by (simp add: querySelectorAll_def search_page_def upt_rec)

lemma search_buttons: "querySelectorAll search_page (Class ''btn'') = []"
  by (simp add: querySelectorAll_def search_page_def upt_rec)

lemma search_paths:
  "path_from search_page 0 = [0]" "path_from search_page (Suc 0) = [Suc 0, 0]"
proof -
  show 0: "path_from search_page 0 = [0]"
    by (simp add: path_from_root search_page_def)
  have "path_from search_page (Suc 0) = Suc 0 # path_from search_page 0"
    by (rule path_from_child) (simp_all add: search_page_def)
  with 0 show "path_from search_page (Suc 0) = [Suc 0, 0]" by simp
qed



lemma search_follow_up: "follow_up search_page (Suc 0) = Submits 0"
  unfolding follow_up_def activation_target_def search_paths by (simp add: search_page_def)



lemma card_follow_ups:
  "follow_up card_page 0 = Inert" "follow_up card_page (Suc 0) = OtherDefault"
  "follow_up card_page 2 = OtherDefault"
  unfolding follow_up_def activation_target_def card_paths by (simp_all add: card_page_def)

lemma toolbar_follow_ups:
  "follow_up toolbar_page (Suc 0) = OtherDefault" "follow_up toolbar_page 2 = OtherDefault"
  "follow_up toolbar_page 3 = OtherDefault"
  unfolding follow_up_def activation_target_def toolbar_paths by (simp_all add: toolbar_page_def)

section \<open>Submission interception\<close>

text \<open>
  Claim C1. For every form of the document, whatever the number of forms, the
  registration pass binds a submit handler to it: whenever the form's submit event is
  fired afterwards (after any earlier interactions \<open>evs\<close>), the event comes back
  from dispatch with its default prevented, so the browser does not navigate, and the
  first line the dispatch prints is \<^verbatim>\<open>Form submitted:\<close> with that very form.
\<close>

theorem submit_is_intercepted:
  assumes "f \<in> set (querySelectorAll doc (Tag ''form''))"
    and "st = snd (interact doc evs (registration_pass doc fresh_page))"
  shows "canceled (fst (dispatchEvent std_console doc (submit_event f) st)) \<and>
         (\<exists>ts. console (snd (dispatchEvent std_console doc (submit_event f) st)) =
                  console st @ (''Form submitted:'', f) # ts)"
proof -
  have ls: "listeners st = listeners (registration_pass doc fresh_page)"
    using assms(2) by (simp add: interact_listeners)
  from assms(1) have ff: "f \<in> set (forms_of doc)" by (simp add: forms_of_def)
  then have "f < length doc" by (simp add: forms_of_def qsa_set)
  then obtain rest where p: "event_path doc (submit_event f) = f # rest"
    using event_path_cons [of "submit_event f" doc] by (auto simp add: submit_event_def)
  have c: "canceled (fst (dispatchEvent std_console doc (submit_event f) st))"
    unfolding submit_dispatch_std ls using p ff
    by (simp add: prevents_pass1 submit_event_def)
  have "emitted ''submit'' (listeners (registration_pass doc fresh_page) f) =
          [(''Form submitted:'', f)]"
    unfolding emitted_pass1 using ff by (simp add: emitted_once_def)
  then have "console (snd (dispatchEvent std_console doc (submit_event f) st)) =
          console st @ (''Form submitted:'', f) #
            concat (map (\<lambda>h. emitted ''submit'' (listeners st h)) rest)"
    unfolding submit_dispatch_std using p ls by (simp add: submit_event_def)
  with c show ?thesis by blast
qed

theorem submit_is_intercepted_witness:
  "0 \<in> set (querySelectorAll login_page (Tag ''form'')) \<and>
   canceled (fst (dispatchEvent std_console login_page (submit_event 0)
      (registration_pass login_page fresh_page))) \<and>
   (\<exists>ts. console (snd (dispatchEvent std_console login_page (submit_event 0)
      (registration_pass login_page fresh_page))) =
        console (registration_pass login_page fresh_page) @ (''Form submitted:'', 0) # ts)"
proof -
  have h: "0 \<in> set (querySelectorAll login_page (Tag ''form''))"
    by (simp add: login_forms)
  have s: "registration_pass login_page fresh_page =
             snd (interact login_page [] (registration_pass login_page fresh_page))"
    by simp
  show ?thesis using h submit_is_intercepted [OF h s] by simp
qed

section \<open>Click logging\<close>




section \<open>One binding per element\<close>

text \<open>
  Claim C3. After one run of the registration pass on the page as loaded, an element has
  exactly one submit listener if it is a form and none otherwise, exactly one click
  listener if it has class \<^verbatim>\<open>btn\<close> and none otherwise, and no further listener: no
  element is bound twice.
\<close>

theorem one_binding_per_element:
  "length (filter (\<lambda>l. ltype l = ''submit'') (listeners (registration_pass doc fresh_page) h)) =
     (if h \<in> set (querySelectorAll doc (Tag ''form'')) then 1 else 0) \<and>
   length (filter (\<lambda>l. ltype l = ''click'') (listeners (registration_pass doc fresh_page) h)) =
     (if h \<in> set (querySelectorAll doc (Class ''btn'')) then 1 else 0) \<and>
   length (listeners (registration_pass doc fresh_page) h) =
     (if h \<in> set (querySelectorAll doc (Tag ''form'')) then 1 else 0) +
     (if h \<in> set (querySelectorAll doc (Class ''btn'')) then 1 else 0)"
proof -
  obtain i j where "listeners (registration_pass doc fresh_page) h =
           listeners fresh_page h @ (if h \<in> set (forms_of doc) then [submit_listener i h] else [])
                          @ (if h \<in> set (buttons_of doc) then [click_listener j h] else [])"
    using pass_at [OF ids_below_fresh] by blast
  then show ?thesis
    by (simp add: fresh_listeners forms_of_def buttons_of_def submit_listener_def click_listener_def)
qed

section \<open>Running the pass twice\<close>

text \<open>
  Claim C4 says that a second run of the pass leaves one trace per submit event. The pass
  has no guard against rebinding and every run makes new function objects, so
  \<^verbatim>\<open>addEventListener\<close> adds them: on the login page, after two runs, one submit event
  prints two lines.
\<close>

theorem double_invocation_counterexample:
  "console (snd (dispatchEvent std_console login_page (submit_event 0)
      (registration_pass login_page (registration_pass login_page fresh_page)))) =
     [(''Form submitted:'', 0), (''Form submitted:'', 0)]"
  unfolding submit_dispatch_std login_path0
  by (simp add: emitted_pass2 console_pass2 emitted_once_def forms_of_def login_forms
      submit_event_def)

text \<open>
  Claim C4, amended. After \<open>n\<close> runs of the pass a form has \<open>n\<close> submit handlers: a
  submit event still has its default prevented (as soon as \<open>n\<close> is at least one), and
  it prints the form's line \<open>n\<close> times, two times after two runs; the lines \<open>ts\<close>
  that follow refer to other elements.
\<close>

theorem rebinding_repeats_the_trace:
  assumes "f \<in> set (querySelectorAll doc (Tag ''form''))"
  shows "canceled (fst (dispatchEvent std_console doc (submit_event f)
            ((registration_pass doc ^^ n) fresh_page))) = (0 < n) \<and>
         (\<exists>ts. console (snd (dispatchEvent std_console doc (submit_event f)
            ((registration_pass doc ^^ n) fresh_page))) =
              replicate n (''Form submitted:'', f) @ ts \<and> (\<forall>t \<in> set ts. snd t \<noteq> f))"
proof -
  from assms have ff: "f \<in> set (forms_of doc)" by (simp add: forms_of_def)
  then have "f < length doc" by (simp add: forms_of_def qsa_set)
  then obtain rest where p: "event_path doc (submit_event f) = f # rest"
    and lt: "\<forall>a \<in> set rest. a < f"
    using event_path_cons [of "submit_event f" doc] by (auto simp add: submit_event_def)
  have c: "canceled (fst (dispatchEvent std_console doc (submit_event f)
            ((registration_pass doc ^^ n) fresh_page))) = (0 < n)"
    unfolding submit_dispatch_std using p ff
    by (auto simp add: prevents_passes submit_event_def list_ex_iff)
  let ?ts = "concat (map (\<lambda>a. concat (replicate n (emitted_once doc ''submit'' a))) rest)"
  have e: "concat (replicate n (emitted_once doc ''submit'' f)) = replicate n (''Form submitted:'', f)"
    using ff by (induction n) (simp_all add: emitted_once_def)
  have "console (snd (dispatchEvent std_console doc (submit_event f)
            ((registration_pass doc ^^ n) fresh_page))) =
          replicate n (''Form submitted:'', f) @ ?ts"
    unfolding submit_dispatch_std emitted_passes using p e
    by (simp add: submit_event_def passes_console)
  moreover have "\<forall>t \<in> set ?ts. snd t \<noteq> f"
    using ancestors_traces [OF lt] by blast
  ultimately show ?thesis using c by blast
qed

theorem rebinding_repeats_the_trace_witness:
  "0 \<in> set (querySelectorAll login_page (Tag ''form'')) \<and>
   canceled (fst (dispatchEvent std_console login_page (submit_event 0)
            ((registration_pass login_page ^^ 2) fresh_page))) \<and>
   (\<exists>ts. console (snd (dispatchEvent std_console login_page (submit_event 0)
            ((registration_pass login_page ^^ 2) fresh_page))) =
              [(''Form submitted:'', 0), (''Form submitted:'', 0)] @ ts)"
proof -
  have h: "0 \<in> set (querySelectorAll login_page (Tag ''form''))"
    by (simp add: login_forms)
  have r: "replicate 2 (''Form submitted:'', 0::nat) = [(''Form submitted:'', 0), (''Form submitted:'', 0)]"
    by (simp add: numeral_2_eq_2)
  show ?thesis using h rebinding_repeats_the_trace [OF h, of 2] unfolding r by auto
qed

section \<open>Empty collections\<close>

text \<open>
  Claim C5 says that on a document without marked controls a click on any element
  leaves no trace. A click on an unmarked submit button makes the host submit its form,
  and the form's submit handler prints its line: on the search page, which has no
  element of class \<^verbatim>\<open>btn\<close>, a click on the button leaves one line.
\<close>

theorem unmarked_submit_counterexample:
  "querySelectorAll search_page (Class ''btn'') = [] \<and>
   console (snd (dispatchEvent std_console search_page (click_event 1)
      (registration_pass search_page fresh_page))) = [(''Form submitted:'', 0)]"
proof -
  let ?T = "doc_traces search_page" and ?C = "doc_outcome search_page"
  have c: "chain_lines search_page ?T ?C [] (click_event (Suc 0)) =
             ?T (click_event (Suc 0)) @ ?T (submit_event 0)"
    by (rule chain_lines_submit) (simp_all add: doc_outcome_click search_follow_up)
  have t1: "?T (click_event (Suc 0)) = []"
    by (simp add: doc_traces_no_buttons search_buttons)
  have t2: "?T (submit_event 0) = [(''Form submitted:'', 0)]"
    by (simp add: doc_traces_def submit_event_def event_path_def search_paths emitted_once_def
        forms_of_def search_forms)
  have "console (snd (dispatchEvent std_console search_page (click_event 1)
      (registration_pass search_page fresh_page))) =
      console (registration_pass search_page fresh_page) @
        chain_lines search_page ?T ?C [] (click_event 1)"
    by (simp add: dispatch_after_pass)
  then show ?thesis by (simp add: console_pass1 c t1 t2 search_buttons)
qed

text \<open>
  Claim C5, amended. When the document has no form, binding the forms returns the page
  as it was (no iteration, no listener, no reported error); when it has no element of
  class \<^verbatim>\<open>btn\<close>, binding the buttons returns the page as it was, and a click on any
  element \<open>h\<close> afterwards prints no \<^verbatim>\<open>Button clicked:\<close> line: it leaves the event
  unchanged and can only print \<^verbatim>\<open>Form submitted:\<close> lines, which it does when the click
  makes the host submit a form. It leaves the page unchanged when the click fires no
  further event, and always when the document has no form either.
\<close>

theorem empty_collections_and_clicks:
  assumes "P = snd (interact doc evs (registration_pass doc fresh_page))"
  shows
  "(querySelectorAll doc (Tag ''form'') = [] \<longrightarrow> bind_forms doc st = st) \<and>
   (querySelectorAll doc (Class ''btn'') = [] \<longrightarrow>
      bind_buttons doc st = st \<and>
      fst (dispatchEvent std_console doc (click_event h) P) = click_event h \<and>
      (\<exists>ts. console (snd (dispatchEvent std_console doc (click_event h) P)) = console P @ ts \<and>
            (\<forall>t \<in> set ts. fst t = ''Form submitted:'')) \<and>
      (follow_up doc h = Inert \<or> follow_up doc h = OtherDefault \<longrightarrow>
         dispatchEvent std_console doc (click_event h) P = (click_event h, P)) \<and>
      (querySelectorAll doc (Tag ''form'') = [] \<longrightarrow>
         dispatchEvent std_console doc (click_event h) P = (click_event h, P)))"
proof -
  let ?T = "doc_traces doc" and ?C = "doc_outcome doc"
  let ?lines = "chain_lines doc ?T ?C [] (click_event h)"
  have ls: "listeners P = listeners (registration_pass doc fresh_page)"
    using assms by (simp add: interact_listeners)
  have d: "dispatchEvent std_console doc (click_event h) P =
             (click_event h, P\<lparr>console := console P @ ?lines\<rparr>)"
    by (simp add: dispatch_after_pass [OF ls] click_event_same)
  have forms: "bind_forms doc st = st" if "querySelectorAll doc (Tag ''form'') = []"
    using that by (simp add: bind_forms_def)
  have buttons: "bind_buttons doc st = st" if "querySelectorAll doc (Class ''btn'') = []"
    using that by (simp add: bind_buttons_def)
  have only_forms: "\<forall>t \<in> set ?lines. fst t = ''Form submitted:''"
    if nb: "querySelectorAll doc (Class ''btn'') = []"
  proof
    fix t assume "t \<in> set ?lines"
    then have "t \<in> set (?T (click_event h)) \<or> (\<exists>f. t \<in> set (?T (submit_event f))) \<or>
               (\<exists>c. t \<in> set (?T (click_event c)))"
      by (rule chain_lines_mem)
    then have "\<exists>f. t \<in> set (?T (submit_event f))"
      by (simp add: doc_traces_no_buttons [OF nb])
    then show "fst t = ''Form submitted:''" using doc_traces_submit by blast
  qed
  have quiet: "dispatchEvent std_console doc (click_event h) P = (click_event h, P)"
    if nb: "querySelectorAll doc (Class ''btn'') = []"
      and q: "follow_up doc h = Inert \<or> follow_up doc h = OtherDefault"
  proof -
    have "?lines = ?T (click_event h)" using q by (rule chain_lines_quiet)
    then have "?lines = []" by (simp add: doc_traces_no_buttons [OF nb])
    then show ?thesis by (simp add: d)
  qed
  have silent: "dispatchEvent std_console doc (click_event h) P = (click_event h, P)"
    if nb: "querySelectorAll doc (Class ''btn'') = []"
      and nf: "querySelectorAll doc (Tag ''form'') = []"
  proof -
    have "t \<notin> set ?lines" for t
    proof
      assume "t \<in> set ?lines"
      then have "t \<in> set (?T (click_event h)) \<or> (\<exists>f. t \<in> set (?T (submit_event f))) \<or>
               (\<exists>c. t \<in> set (?T (click_event c)))"
        by (rule chain_lines_mem)
      then show False
        by (simp add: doc_traces_no_buttons [OF nb] doc_traces_no_forms [OF nf])
    qed
    then have "?lines = []" by (cases ?lines) auto
    then show ?thesis by (simp add: d)
  qed
  have out: "\<exists>ts. console (snd (dispatchEvent std_console doc (click_event h) P)) = console P @ ts \<and>
            (\<forall>t \<in> set ts. fst t = ''Form submitted:'')"
    if nb: "querySelectorAll doc (Class ''btn'') = []"
  proof -
    have "console (snd (dispatchEvent std_console doc (click_event h) P)) = console P @ ?lines"
      by (simp add: d)
    with only_forms [OF nb] show ?thesis by blast
  qed
  have e: "fst (dispatchEvent std_console doc (click_event h) P) = click_event h"
    by (simp add: d)
  show ?thesis
  proof (intro conjI impI)
    assume "querySelectorAll doc (Tag ''form'') = []"
    then show "bind_forms doc st = st" by (rule forms)
  next
    assume "querySelectorAll doc (Class ''btn'') = []"
    then show "bind_buttons doc st = st" by (rule buttons)
  next
    show "fst (dispatchEvent std_console doc (click_event h) P) = click_event h" by (rule e)
  next
    assume "querySelectorAll doc (Class ''btn'') = []"
    then show "\<exists>ts. console (snd (dispatchEvent std_console doc (click_event h) P)) =
                 console P @ ts \<and> (\<forall>t \<in> set ts. fst t = ''Form submitted:'')"
      by (rule out)
  next
    assume "querySelectorAll doc (Class ''btn'') = []"
      and "follow_up doc h = Inert \<or> follow_up doc h = OtherDefault"
    then show "dispatchEvent std_console doc (click_event h) P = (click_event h, P)"
      by (rule quiet)
  next
    assume "querySelectorAll doc (Class ''btn'') = []"
      and "querySelectorAll doc (Tag ''form'') = []"
    then show "dispatchEvent std_console doc (click_event h) P = (click_event h, P)"
      by (rule silent)
  qed
qed

theorem empty_collections_and_clicks_witness:
  "querySelectorAll plain_page (Tag ''form'') = [] \<and>
   querySelectorAll plain_page (Class ''btn'') = [] \<and>
   bind_forms plain_page fresh_page = fresh_page \<and>
   bind_buttons plain_page fresh_page = fresh_page \<and>
   dispatchEvent std_console plain_page (click_event 1) (registration_pass plain_page fresh_page) =
     (click_event 1, registration_pass plain_page fresh_page)"
proof -
  have s: "registration_pass plain_page fresh_page =
             snd (interact plain_page [] (registration_pass plain_page fresh_page))"
    by simp
  show ?thesis
    using empty_collections_and_clicks [OF s, of fresh_page 1]
    by (simp add: plain_forms plain_buttons)
qed

section \<open>Trace order\<close>

text \<open>
  Claim C6 says that three marked controls, clicked one after the other, leave three
  lines. Click events bubble and the handlers do not stop them, so a click on a marked
  control inside another marked control runs both handlers: on the card page the three
  clicks leave four lines.
\<close>

theorem nested_controls_counterexample:
  "console (snd (interact card_page [click_event 0, click_event 1, click_event 2]
      (registration_pass card_page fresh_page))) =
     [(''Button clicked:'', 0), (''Button clicked:'', 1), (''Button clicked:'', 0),
      (''Button clicked:'', 2)]"
proof -
  have q: "\<forall>b \<in> set [0, 1, 2]. follow_up card_page b = Inert \<or> follow_up card_page b = OtherDefault"
    by (simp add: card_follow_ups)
  have "console (snd (interact card_page (map click_event [0, 1, 2])
      (registration_pass card_page fresh_page))) =
     concat (map (\<lambda>b. map (Pair ''Button clicked:'')
       (filter (\<lambda>a. a \<in> set (querySelectorAll card_page (Class ''btn'')))
         (path_from card_page b))) [0, 1, 2])"
    using q by (rule quiet_clicks_console)
  also have "\<dots> = [(''Button clicked:'', 0), (''Button clicked:'', 1), (''Button clicked:'', 0),
      (''Button clicked:'', 2)]"
    by (simp add: card_buttons card_paths)
  finally show ?thesis by simp
qed

text \<open>
  Claim C6, amended. Take clicks on the elements \<open>bs\<close>, one after the other, none of
  which makes the host fire a further event (no clicked element is, or lies inside, a
  submit button of a form or a label that forwards the click). They print for each
  click, in click order, one line for every element of class \<^verbatim>\<open>btn\<close> on the path from
  the clicked element to the root, innermost first. When every clicked element is a
  marked control that is not inside another marked control, that is one line per click,
  referring to the clicked element, and the lines are distinct when the elements are (so
  three distinct lines for three such controls). The bindings are made in document
  order, the forms first: the \<open>k\<close>-th form receives function object \<open>k\<close>, the
  \<open>k\<close>-th marked control the function object numbered \<open>k\<close> after the forms'.
\<close>

theorem quiet_clicks_are_logged_in_click_order:
  "((\<forall>b \<in> set bs. follow_up doc b = Inert \<or> follow_up doc b = OtherDefault) \<longrightarrow>
      console (snd (interact doc (map click_event bs) (registration_pass doc fresh_page))) =
        concat (map (\<lambda>b. map (Pair ''Button clicked:'')
          (filter (\<lambda>a. a \<in> set (querySelectorAll doc (Class ''btn''))) (path_from doc b))) bs)) \<and>
   ((\<forall>b \<in> set bs. follow_up doc b = Inert \<or> follow_up doc b = OtherDefault) \<and>
    set bs \<subseteq> set (querySelectorAll doc (Class ''btn'')) \<and>
    (\<forall>b \<in> set bs. \<forall>a \<in> set (tl (path_from doc b)).
        a \<notin> set (querySelectorAll doc (Class ''btn''))) \<longrightarrow>
      console (snd (interact doc (map click_event bs) (registration_pass doc fresh_page))) =
        map (Pair ''Button clicked:'') bs \<and>
      (distinct bs \<longrightarrow>
        distinct (console (snd (interact doc (map click_event bs)
           (registration_pass doc fresh_page)))))) \<and>
   sorted (querySelectorAll doc (Tag ''form'')) \<and>
   sorted (querySelectorAll doc (Class ''btn'')) \<and>
   (\<forall>k < length (querySelectorAll doc (Tag ''form'')).
      submit_listener k (querySelectorAll doc (Tag ''form'') ! k) \<in>
        set (listeners (registration_pass doc fresh_page) (querySelectorAll doc (Tag ''form'') ! k))) \<and>
   (\<forall>k < length (querySelectorAll doc (Class ''btn'')).
      click_listener (length (querySelectorAll doc (Tag ''form'')) + k)
          (querySelectorAll doc (Class ''btn'') ! k) \<in>
        set (listeners (registration_pass doc fresh_page) (querySelectorAll doc (Class ''btn'') ! k)))"
proof -
  let ?btn = "\<lambda>a. a \<in> set (querySelectorAll doc (Class ''btn''))"
  let ?out = "console (snd (interact doc (map click_event bs) (registration_pass doc fresh_page)))"
  have general: "?out = concat (map (\<lambda>b. map (Pair ''Button clicked:'')
       (filter ?btn (path_from doc b))) bs)"
    if "\<forall>b \<in> set bs. follow_up doc b = Inert \<or> follow_up doc b = OtherDefault"
    using that by (rule quiet_clicks_console)
  have flat: "?out = map (Pair ''Button clicked:'') bs \<and> (distinct bs \<longrightarrow> distinct ?out)"
    if q: "\<forall>b \<in> set bs. follow_up doc b = Inert \<or> follow_up doc b = OtherDefault"
      and sub: "set bs \<subseteq> set (querySelectorAll doc (Class ''btn''))"
      and un: "\<forall>b \<in> set bs. \<forall>a \<in> set (tl (path_from doc b)). \<not> ?btn a"
  proof -
    have "map (\<lambda>b. map (Pair ''Button clicked:'') (filter ?btn (path_from doc b))) bs =
            map (\<lambda>b. [(''Button clicked:'', b)]) bs"
    proof (rule map_cong [OF refl])
      fix b assume "b \<in> set bs"
      with sub un have "filter ?btn (path_from doc b) = [b]"
        by (intro unnested_path) auto
      then show "map (Pair ''Button clicked:'') (filter ?btn (path_from doc b)) =
                   [(''Button clicked:'', b)]" by simp
    qed
    then have "?out = concat (map (\<lambda>b. [(''Button clicked:'', b)]) bs)"
      unfolding general [OF q] by (rule arg_cong)
    also have "\<dots> = map (Pair ''Button clicked:'') bs"
      by (induction bs) simp_all
    finally have eq: "?out = map (Pair ''Button clicked:'') bs" .
    have "distinct bs \<longrightarrow> distinct (map (Pair ''Button clicked:'') bs)"
      by (simp add: distinct_map inj_on_def)
    with eq show ?thesis by simp
  qed
  show ?thesis
    using general flat qsa_sorted binding_order_forms binding_order_buttons
    by blast
qed

theorem quiet_clicks_are_logged_in_click_order_witness:
  "set [1, 2, 3] \<subseteq> set (querySelectorAll toolbar_page (Class ''btn'')) \<and>
   console (snd (interact toolbar_page (map click_event [1, 2, 3])
      (registration_pass toolbar_page fresh_page))) =
     [(''Button clicked:'', 1), (''Button clicked:'', 2), (''Button clicked:'', 3)] \<and>
   distinct (console (snd (interact toolbar_page (map click_event [1, 2, 3])
      (registration_pass toolbar_page fresh_page)))) \<and>
   click_listener 0 1 \<in> set (listeners (registration_pass toolbar_page fresh_page) 1) \<and>
   click_listener 1 2 \<in> set (listeners (registration_pass toolbar_page fresh_page) 2) \<and>
   click_listener 2 3 \<in> set (listeners (registration_pass toolbar_page fresh_page) 3)"
proof -
  have sub: "set [1, 2, 3] \<subseteq> set (querySelectorAll toolbar_page (Class ''btn''))"
    by (simp add: toolbar_buttons)
  have un: "\<forall>b \<in> set [1, 2, 3]. \<forall>a \<in> set (tl (path_from toolbar_page b)).
              a \<notin> set (querySelectorAll toolbar_page (Class ''btn''))"
    by (simp add: toolbar_buttons toolbar_paths)
  have q: "\<forall>b \<in> set [1, 2, 3]. follow_up toolbar_page b = Inert \<or>
              follow_up toolbar_page b = OtherDefault"
    by (simp add: toolbar_follow_ups)
  have d: "distinct [1, 2, 3::nat]" by simp
  have f: "querySelectorAll toolbar_page (Tag ''form'') = []"
    by (simp add: querySelectorAll_def toolbar_page_def upt_rec)
  note t = quiet_clicks_are_logged_in_click_order [of "[1, 2, 3]" toolbar_page]
  from t sub un q d have 1: "console (snd (interact toolbar_page (map click_event [1, 2, 3])
      (registration_pass toolbar_page fresh_page))) =
     map (Pair ''Button clicked:'') [1, 2, 3]" by blast
  from t sub un q d have 2: "distinct (console (snd (interact toolbar_page (map click_event [1, 2, 3])
      (registration_pass toolbar_page fresh_page))))" by blast
  from t have 3: "\<forall>k < length (querySelectorAll toolbar_page (Class ''btn'')).
      click_listener (length (querySelectorAll toolbar_page (Tag ''form'')) + k)
          (querySelectorAll toolbar_page (Class ''btn'') ! k) \<in>
        set (listeners (registration_pass toolbar_page fresh_page)
               (querySelectorAll toolbar_page (Class ''btn'') ! k))" by blast
  have "click_listener 0 1 \<in> set (listeners (registration_pass toolbar_page fresh_page) 1)"
    using 3 [rule_format, of 0] by (simp add: toolbar_buttons f)
  moreover have "click_listener 1 2 \<in> set (listeners (registration_pass toolbar_page fresh_page) 2)"
    using 3 [rule_format, of 1] by (simp add: toolbar_buttons f)
  moreover have "click_listener 2 3 \<in> set (listeners (registration_pass toolbar_page fresh_page) 3)"
    using 3 [rule_format, of 2] by (simp add: toolbar_buttons f numeral_2_eq_2)
  ultimately show ?thesis using sub 1 2 by simp
qed

section \<open>One run per page load\<close>

text \<open>
  Claim C7. The script binds the registration pass to \<^verbatim>\<open>DOMContentLoaded\<close> on the
  document and to nothing else. Whatever events are fired at the document, the pass has
  run once for each \<^verbatim>\<open>DOMContentLoaded\<close> among them. So it has run, once, when the
  browser has fired \<^verbatim>\<open>DOMContentLoaded\<close>, before \<^verbatim>\<open>load\<close> (the images need not
  have arrived); over the whole load it has run exactly once; and the later submit and
  click events change neither the listeners nor the function objects.
\<close>

theorem pass_runs_once_per_load:
  "document_listeners (main_js new_context) = [''DOMContentLoaded''] \<and>
   current (fire_all doc names (main_js new_context)) =
     (registration_pass doc ^^ count_list names ''DOMContentLoaded'') fresh_page \<and>
   current (fire_all doc [''readystatechange'', ''DOMContentLoaded''] (main_js new_context)) =
     registration_pass doc fresh_page \<and>
   current (fire_all doc load_events (main_js new_context)) = registration_pass doc fresh_page \<and>
   listeners (snd (interact doc evs (registration_pass doc fresh_page))) =
     listeners (registration_pass doc fresh_page) \<and>
   next_fn (snd (interact doc evs (registration_pass doc fresh_page))) =
     next_fn (registration_pass doc fresh_page)"
proof -
  note c = fire_all_count [OF main_js_listeners, unfolded main_js_current]
  have 1: "current (fire_all doc [''readystatechange'', ''DOMContentLoaded''] (main_js new_context)) =
     registration_pass doc fresh_page"
    unfolding c by simp
  have 2: "current (fire_all doc load_events (main_js new_context)) = registration_pass doc fresh_page"
    unfolding c by (simp add: load_events_def)
  have 3: "next_fn (snd (interact doc evs (registration_pass doc fresh_page))) =
     next_fn (registration_pass doc fresh_page)"
    by (simp add: interact_std)
  show ?thesis using main_js_listeners c 1 2 3 interact_listeners by blast
qed

section \<open>What the script changes\<close>

text \<open>
  Claim C8. The registration pass prints nothing and reports nothing; it only appends
  listeners. Dispatching an event changes no listener and makes no function object;
  after the pass (and any interactions \<open>evs\<close>), with the browser's console, it reports
  nothing, it only appends lines to the console, each one of the script's two
  diagnostic lines, and of the event it can only change the canceled flag, which it never
  does for an event that is not a submit event. The page has no other component: the
  script calls nothing but \<^verbatim>\<open>querySelectorAll\<close>, \<^verbatim>\<open>forEach\<close>,
  \<^verbatim>\<open>addEventListener\<close>, \<^verbatim>\<open>preventDefault\<close> and \<^verbatim>\<open>console.log\<close>.
\<close>

theorem effect_frame:
  assumes "P = snd (interact doc evs (registration_pass doc fresh_page))"
  shows "console (registration_pass doc st) = console st \<and>
         reported (registration_pass doc st) = reported st \<and>
         (\<exists>ls. listeners (registration_pass doc st) h = listeners st h @ ls) \<and>
         listeners (snd (dispatchEvent throws doc ev st)) = listeners st \<and>
         next_fn (snd (dispatchEvent throws doc ev st)) = next_fn st \<and>
         reported (snd (dispatchEvent std_console doc ev P)) = reported P \<and>
         (\<exists>ts. console (snd (dispatchEvent std_console doc ev P)) = console P @ ts \<and>
               (\<forall>t \<in> set ts. fst t = ''Form submitted:'' \<or> fst t = ''Button clicked:'')) \<and>
         (\<exists>c. fst (dispatchEvent std_console doc ev P) = ev\<lparr>canceled := c\<rparr>) \<and>
         (etype ev \<noteq> ''submit'' \<longrightarrow> fst (dispatchEvent std_console doc ev P) = ev)"
proof -
  have ls: "listeners P = listeners (registration_pass doc fresh_page)"
    using assms by (simp add: interact_listeners)
  note d = dispatch_after_pass [OF ls, of ev]
  let ?ts = "chain_lines doc (doc_traces doc) (doc_outcome doc) [] ev"
  have 1: "reported (snd (dispatchEvent std_console doc ev P)) = reported P"
    by (simp add: d)
  have 2: "console (snd (dispatchEvent std_console doc ev P)) = console P @ ?ts"
    by (simp add: d)
  have 3: "\<forall>t \<in> set ?ts. fst t = ''Form submitted:'' \<or> fst t = ''Button clicked:''"
  proof
    fix t assume "t \<in> set ?ts"
    then have "t \<in> set (doc_traces doc ev) \<or> (\<exists>f. t \<in> set (doc_traces doc (submit_event f))) \<or>
               (\<exists>c. t \<in> set (doc_traces doc (click_event c)))"
      by (rule chain_lines_mem)
    then show "fst t = ''Form submitted:'' \<or> fst t = ''Button clicked:''"
      using doc_traces_labels by blast
  qed
  have 4: "\<exists>c. fst (dispatchEvent std_console doc ev P) = ev\<lparr>canceled := c\<rparr>"
    unfolding d fst_conv by (rule exI) (rule refl)
  have 5: "etype ev \<noteq> ''submit'' \<longrightarrow> fst (dispatchEvent std_console doc ev P) = ev"
    by (simp add: d doc_outcome_def)
  from 2 3 have 6: "\<exists>ts. console (snd (dispatchEvent std_console doc ev P)) = console P @ ts \<and>
               (\<forall>t \<in> set ts. fst t = ''Form submitted:'' \<or> fst t = ''Button clicked:'')"
    by blast
  show ?thesis
    using pass_frame [of doc st] dispatch_any(2,3) [of throws doc ev st] 1 4 5 6 by blast
qed

theorem effect_frame_witness:
  "etype (click_event 1) \<noteq> ''submit'' \<and>
   fst (dispatchEvent std_console login_page (click_event 1)
      (registration_pass login_page fresh_page)) = click_event 1 \<and>
   console (registration_pass login_page fresh_page) = console fresh_page \<and>
   listeners (snd (dispatchEvent std_console login_page (click_event 1)
      (registration_pass login_page fresh_page))) = listeners (registration_pass login_page fresh_page)"
proof -
  have s: "registration_pass login_page fresh_page =
             snd (interact login_page [] (registration_pass login_page fresh_page))"
    by simp
  have e: "etype (click_event 1) \<noteq> ''submit''" by (simp add: click_event_def)
  note t = effect_frame [OF s, of fresh_page _ std_console "click_event 1"]
  note u = effect_frame [OF s, of "registration_pass login_page fresh_page" _ std_console "click_event 1"]
  from t e have 1: "fst (dispatchEvent std_console login_page (click_event 1)
      (registration_pass login_page fresh_page)) = click_event 1" by blast
  from t have 2: "console (registration_pass login_page fresh_page) = console fresh_page" by blast
  from u have 3: "listeners (snd (dispatchEvent std_console login_page (click_event 1)
      (registration_pass login_page fresh_page))) = listeners (registration_pass login_page fresh_page)"
    by blast
  show ?thesis using e 1 2 3 by blast
qed

section \<open>Suppression comes before the trace\<close>

text \<open>
  Claim C9. The submit handler calls \<^verbatim>\<open>preventDefault\<close> before \<^verbatim>\<open>console.log\<close>: with
  any console, also one whose \<^verbatim>\<open>log\<close> raises, a call of the handler leaves the event
  as \<^verbatim>\<open>preventDefault\<close> made it, and the line is printed only when the console does
  not raise. So for every form, the submit event comes back from dispatch with its
  default prevented whatever the console does.
\<close>

theorem suppression_precedes_trace:
  "call throws \<lparr>fn_id = i, body = SubmitBody, captured = f\<rparr> (ev, st) =
     (if throws (''Form submitted:'', f)
      then (Some (LogFailure (''Form submitted:'', f)), preventDefault ev, st)
      else (None, preventDefault ev, st\<lparr>console := console st @ [(''Form submitted:'', f)]\<rparr>)) \<and>
   (f \<in> set (querySelectorAll doc (Tag ''form'')) \<longrightarrow>
      canceled (fst (dispatchEvent throws doc (submit_event f) (registration_pass doc fresh_page))))"
proof (intro conjI impI)
  show "call throws \<lparr>fn_id = i, body = SubmitBody, captured = f\<rparr> (ev, st) =
     (if throws (''Form submitted:'', f)
      then (Some (LogFailure (''Form submitted:'', f)), preventDefault ev, st)
      else (None, preventDefault ev, st\<lparr>console := console st @ [(''Form submitted:'', f)]\<rparr>))"
    by (simp add: call_def console_log_def)
next
  assume "f \<in> set (querySelectorAll doc (Tag ''form''))"
  then have ff: "f \<in> set (forms_of doc)" by (simp add: forms_of_def)
  then have "f < length doc" by (simp add: forms_of_def qsa_set)
  then obtain rest where p: "event_path doc (submit_event f) = f # rest"
    using event_path_cons [of "submit_event f" doc] by (auto simp add: submit_event_def)
  show "canceled (fst (dispatchEvent throws doc (submit_event f) (registration_pass doc fresh_page)))"
    unfolding submit_dispatch_any using p ff
    by (simp add: prevents_pass1 submit_event_def)
qed

theorem suppression_precedes_trace_witness:
  "0 \<in> set (querySelectorAll login_page (Tag ''form'')) \<and>
   canceled (fst (dispatchEvent (\<lambda>_. True) login_page (submit_event 0)
      (registration_pass login_page fresh_page)))"
proof -
  have h: "0 \<in> set (querySelectorAll login_page (Tag ''form''))"
    by (simp add: login_forms)
  show ?thesis
    using h suppression_precedes_trace [of "\<lambda>_. True" 0 0 "submit_event 0" fresh_page login_page]
    by blast
qed

section \<open>Determinism\<close>

text \<open>
  Claim C10. Two runs of the script on the same document, followed by the same events,
  print the same lines and prevent the same defaults, whatever the console held before,
  whatever was reported before and however many function objects existed before. A call
  of a handler reads nothing but its own code and the element it captured.
\<close>

theorem traces_are_determined:
  "fst (interact doc evs (registration_pass doc (unbound_page c1 r1 n1))) =
     fst (interact doc evs (registration_pass doc (unbound_page c2 r2 n2))) \<and>
   (\<exists>ts. console (snd (interact doc evs (registration_pass doc (unbound_page c1 r1 n1)))) = c1 @ ts \<and>
         console (snd (interact doc evs (registration_pass doc (unbound_page c2 r2 n2)))) = c2 @ ts) \<and>
   call std_console f (ev, st) =
     (None, (if body f = SubmitBody then preventDefault ev else ev),
      st\<lparr>console := console st @
        [(case body f of SubmitBody \<Rightarrow> ''Form submitted:'' | ClickBody \<Rightarrow> ''Button clicked:'',
          captured f)]\<rparr>)"
proof -
  have "call std_console f (ev, st) =
     (None, (if body f = SubmitBody then preventDefault ev else ev),
      st\<lparr>console := console st @
        [(case body f of SubmitBody \<Rightarrow> ''Form submitted:'' | ClickBody \<Rightarrow> ''Button clicked:'',
          captured f)]\<rparr>)"
    by (cases "body f") (simp_all add: call_std trace_of_def)
  then show ?thesis by (simp add: run_unbound)
qed

end
